theory Spec2Isabelle
  imports Main "HOL-Library.Char_ord" "HOL-Library.List_Lexorder" "HOL-Library.Sublist"
    "HOL-Library.Multiset"
begin

section \<open>The creator registries (layer\_factory.hpp, solver\_factory.hpp)\<close>

subsection \<open>std::map as an association list in key order\<close>

text \<open>
  \<^verbatim>\<open>typedef std::map<string, Creator> CreatorRegistry;\<close>
  A \<^verbatim>\<open>std::map\<close> iterates in ascending key order and holds at most one entry per
  key. It is represented by the list of its entries in iteration order; keys are compared
  with the lexicographic order on byte strings, as \<^verbatim>\<open>std::less<std::string>\<close> does.
\<close>

type_synonym ('k, 'v) std_map = "('k \<times> 'v) list"

text \<open>\<^verbatim>\<open>registry.count(type)\<close>: 1 when an entry with that key exists, 0 otherwise.\<close>

definition map_count :: "('k, 'v) std_map \<Rightarrow> 'k \<Rightarrow> nat" where
  "map_count m k = (case map_of m k of None \<Rightarrow> 0 | Some _ \<Rightarrow> 1)"

text \<open>
  \<^verbatim>\<open>registry[type] = creator\<close>: overwrites the entry of an existing key, otherwise inserts
  the new entry at its place in key order.
\<close>

fun map_assign :: "'k::linorder \<Rightarrow> 'v \<Rightarrow> ('k, 'v) std_map \<Rightarrow> ('k, 'v) std_map" where
  "map_assign k v [] = [(k, v)]"
| "map_assign k v ((k', v') # m) =
     (if k < k' then (k, v) # (k', v') # m
      else if k = k' then (k, v) # m
      else (k', v') # map_assign k v m)"

subsection \<open>Fatal check failures\<close>

text \<open>
  A failing \<^verbatim>\<open>CHECK_EQ\<close> logs at severity FATAL and aborts the process. The model returns
  the text streamed into the check (\<^verbatim>\<open>CHECK_EQ(...) << "Layer type " << type << ...\<close>)
  as an error value.
\<close>

datatype fatal = Fatal string

subsection \<open>Parameters and creators\<close>

text \<open>
  Of the protobuf messages \<^verbatim>\<open>LayerParameter\<close> and \<^verbatim>\<open>SolverParameter\<close> the registries read
  \<^verbatim>\<open>param.type()\<close> and \<^verbatim>\<open>param.name()\<close>; the rest of the message is the record's extension.
\<close>

record LayerParameter =
  name :: string
  type :: string

record SolverParameter =
  solver_type :: string

text \<open>
  A \<^verbatim>\<open>Creator\<close> is a function pointer. Calling it constructs an object, an effect on the
  rest of the process: it takes the process state \<open>'w\<close> and returns the instance and the
  new process state.
\<close>

type_synonym ('p, 'w, 'i) Creator = "'p \<Rightarrow> 'w \<Rightarrow> 'i \<times> 'w"

type_synonym ('p, 'w, 'i) CreatorRegistry = "(string, ('p, 'w, 'i) Creator) std_map"

text \<open>\<^verbatim>\<open>static CreatorRegistry* g_registry_ = new CreatorRegistry();\<close>\<close>

definition Registry_new :: "('p, 'w, 'i) CreatorRegistry" where
  "Registry_new = []"

subsection \<open>LayerRegistry\<close>

text \<open>
  \<^verbatim>\<open>AddCreator\<close> returns the registry as it is when the call ends (or the process aborts)
  together with the outcome.
\<close>

definition LayerRegistry_AddCreator ::
  "string \<Rightarrow> ('p, 'w, 'i) Creator \<Rightarrow> ('p, 'w, 'i) CreatorRegistry
    \<Rightarrow> (fatal + unit) \<times> ('p, 'w, 'i) CreatorRegistry" where
  "LayerRegistry_AddCreator ty creator registry =
     (if map_count registry ty \<noteq> 0
      then (Inl (Fatal (''Layer type '' @ ty @ '' already registered.'')), registry)
      else (Inr (), map_assign ty creator registry))"

fun LayerTypeList_loop :: "('k, 'v) std_map \<Rightarrow> 'k list \<Rightarrow> 'k list" where
  "LayerTypeList_loop [] layer_types = layer_types"
| "LayerTypeList_loop (entry # rest) layer_types =
     LayerTypeList_loop rest (layer_types @ [fst entry])"

definition LayerTypeList :: "('p, 'w, 'i) CreatorRegistry \<Rightarrow> string list" where
  "LayerTypeList registry = LayerTypeList_loop registry []"

text \<open>
  The loop of \<^verbatim>\<open>LayerTypeListString\<close>; \<open>at_begin\<close> is \<^verbatim>\<open>iter == layer_types.begin()\<close>.
\<close>

fun TypeListString_loop :: "bool \<Rightarrow> string list \<Rightarrow> string \<Rightarrow> string" where
  "TypeListString_loop at_begin [] str = str"
| "TypeListString_loop at_begin (t # rest) str =
     TypeListString_loop False rest ((if \<not> at_begin then str @ '', '' else str) @ t)"

definition LayerTypeListString :: "('p, 'w, 'i) CreatorRegistry \<Rightarrow> string" where
  "LayerTypeListString registry = TypeListString_loop True (LayerTypeList registry) []"

text \<open>
  \<^verbatim>\<open>CreateLayer\<close>: \<open>root_solver\<close> is \<^verbatim>\<open>Caffe::root_solver()\<close>, \<open>info_log\<close> the lines written
  with \<^verbatim>\<open>LOG(INFO)\<close>. The key is present when \<^verbatim>\<open>registry[type]\<close> is evaluated, so the
  registry is not changed and the lookup finds the creator (the case \<open>None\<close> of the lookup
  is never taken). The result is the outcome, the log and the process state.
\<close>

definition CreateLayer ::
  "bool \<Rightarrow> (('a LayerParameter_scheme), 'w, 'i) CreatorRegistry \<Rightarrow> 'a LayerParameter_scheme
    \<Rightarrow> string list \<Rightarrow> 'w \<Rightarrow> (fatal + 'i) \<times> string list \<times> 'w" where
  "CreateLayer root_solver registry param info_log w =
     (let info_log' = (if root_solver then info_log @ [''Creating layer '' @ name param]
                       else info_log);
          ty = type param
      in if map_count registry ty \<noteq> 1
         then (Inl (Fatal (''Unknown layer type: '' @ ty @ '' (known types: '' @
                            LayerTypeListString registry @ '')'')), info_log', w)
         else (case map_of registry ty of
                 Some creator \<Rightarrow> (case creator param w of (layer, w') \<Rightarrow> (Inr layer, info_log', w'))
               | None \<Rightarrow> (Inl (Fatal []), info_log', w)))"

subsection \<open>SolverRegistry\<close>

definition SolverRegistry_AddCreator ::
  "string \<Rightarrow> ('p, 'w, 'i) Creator \<Rightarrow> ('p, 'w, 'i) CreatorRegistry
    \<Rightarrow> (fatal + unit) \<times> ('p, 'w, 'i) CreatorRegistry" where
  "SolverRegistry_AddCreator ty creator registry =
     (if map_count registry ty \<noteq> 0
      then (Inl (Fatal (''Solver type '' @ ty @ '' already registered.'')), registry)
      else (Inr (), map_assign ty creator registry))"

fun SolverTypeList_loop :: "('k, 'v) std_map \<Rightarrow> 'k list \<Rightarrow> 'k list" where
  "SolverTypeList_loop [] solver_types = solver_types"
| "SolverTypeList_loop (entry # rest) solver_types =
     SolverTypeList_loop rest (solver_types @ [fst entry])"

definition SolverTypeList :: "('p, 'w, 'i) CreatorRegistry \<Rightarrow> string list" where
  "SolverTypeList registry = SolverTypeList_loop registry []"

definition SolverTypeListString :: "('p, 'w, 'i) CreatorRegistry \<Rightarrow> string" where
  "SolverTypeListString registry = TypeListString_loop True (SolverTypeList registry) []"

definition CreateSolver ::
  "(('a SolverParameter_scheme), 'w, 'i) CreatorRegistry \<Rightarrow> 'a SolverParameter_scheme
    \<Rightarrow> 'w \<Rightarrow> (fatal + 'i) \<times> 'w" where
  "CreateSolver registry param w =
     (let ty = solver_type param
      in if map_count registry ty \<noteq> 1
         then (Inl (Fatal (''Unknown solver type: '' @ ty @ '' (known types: '' @
                            SolverTypeListString registry @ '')'')), w)
         else (case map_of registry ty of
                 Some creator \<Rightarrow> (case creator param w of (solver, w') \<Rightarrow> (Inr solver, w'))
               | None \<Rightarrow> (Inl (Fatal []), w)))"

subsection \<open>Registerer objects\<close>

text \<open>
  The constructors of \<^verbatim>\<open>LayerRegisterer\<close> and \<^verbatim>\<open>SolverRegisterer\<close> call \<^verbatim>\<open>AddCreator\<close>.
  The static registerer objects of a program are constructed one after the other; the first
  failing check aborts the process.
\<close>

fun LayerRegisterers ::
  "(string \<times> ('p, 'w, 'i) Creator) list \<Rightarrow> ('p, 'w, 'i) CreatorRegistry
    \<Rightarrow> fatal + ('p, 'w, 'i) CreatorRegistry" where
  "LayerRegisterers [] registry = Inr registry"
| "LayerRegisterers ((ty, creator) # rest) registry =
     (case LayerRegistry_AddCreator ty creator registry of
        (Inl e, _) \<Rightarrow> Inl e
      | (Inr _, registry') \<Rightarrow> LayerRegisterers rest registry')"

fun SolverRegisterers ::
  "(string \<times> ('p, 'w, 'i) Creator) list \<Rightarrow> ('p, 'w, 'i) CreatorRegistry
    \<Rightarrow> fatal + ('p, 'w, 'i) CreatorRegistry" where
  "SolverRegisterers [] registry = Inr registry"
| "SolverRegisterers ((ty, creator) # rest) registry =
     (case SolverRegistry_AddCreator ty creator registry of
        (Inl e, _) \<Rightarrow> Inl e
      | (Inr _, registry') \<Rightarrow> SolverRegisterers rest registry')"

text \<open>
  The diagnostic string as the specification describes it: the registered names, separated
  by a comma and a space. It is compared with the loop of \<^verbatim>\<open>LayerTypeListString\<close> below.
\<close>

fun join_names :: "string list \<Rightarrow> string" where
  "join_names [] = []"
| "join_names [t] = t"
| "join_names (t # u # rest) = t @ '', '' @ join_names (u # rest)"

subsection \<open>The registration macros\<close>

text \<open>
  \<^verbatim>\<open>REGISTER_LAYER_CREATOR(type, creator)\<close> defines two static registerer objects, for
  \<^verbatim>\<open>float\<close> and for \<^verbatim>\<open>double\<close>, in this order; \<^verbatim>\<open>#type\<close> is the macro argument as a string
  literal and \<^verbatim>\<open>type##Layer\<close> the identifier made of the argument and \<^verbatim>\<open>Layer\<close>. The macro
  argument is the string \<open>ty\<close>. An object made by \<^verbatim>\<open>new type##Layer<Dtype>(param)\<close> is
  described by its class name, its element type and the parameter given to its constructor;
  \<^verbatim>\<open>new\<close> adds it to the objects of the process.
\<close>

datatype Dtype = Float | Double

record 'p object =
  class_name :: string
  elem_type :: Dtype
  ctor_param :: 'p

type_synonym 'p heap = "'p object list"

definition new_object :: "string \<Rightarrow> Dtype \<Rightarrow> 'p \<Rightarrow> 'p heap \<Rightarrow> 'p object \<times> 'p heap" where
  "new_object cls d param heap =
     (let obj = \<lparr>class_name = cls, elem_type = d, ctor_param = param\<rparr> in (obj, heap @ [obj]))"

record ('p, 'w, 'i) registries =
  registry_float :: "('p, 'w, 'i) CreatorRegistry"
  registry_double :: "('p, 'w, 'i) CreatorRegistry"

definition REGISTER_LAYER_CREATOR ::
  "string \<Rightarrow> (Dtype \<Rightarrow> ('p, 'w, 'i) Creator) \<Rightarrow> ('p, 'w, 'i) registries
    \<Rightarrow> fatal + ('p, 'w, 'i) registries" where
  "REGISTER_LAYER_CREATOR ty creator rs =
     (case LayerRegistry_AddCreator ty (creator Float) (registry_float rs) of
        (Inl e, _) \<Rightarrow> Inl e
      | (Inr _, rf) \<Rightarrow>
          (case LayerRegistry_AddCreator ty (creator Double) (registry_double rs) of
             (Inl e, _) \<Rightarrow> Inl e
           | (Inr _, rd) \<Rightarrow> Inr (rs\<lparr>registry_float := rf, registry_double := rd\<rparr>)))"

definition Creator_Layer :: "string \<Rightarrow> Dtype \<Rightarrow> ('p, 'p heap, 'p object) Creator" where
  "Creator_Layer ty d param = new_object (ty @ ''Layer'') d param"

definition REGISTER_LAYER_CLASS ::
  "string \<Rightarrow> ('p, 'p heap, 'p object) registries \<Rightarrow> fatal + ('p, 'p heap, 'p object) registries" where
  "REGISTER_LAYER_CLASS ty = REGISTER_LAYER_CREATOR ty (Creator_Layer ty)"

definition REGISTER_SOLVER_CREATOR ::
  "string \<Rightarrow> (Dtype \<Rightarrow> ('p, 'w, 'i) Creator) \<Rightarrow> ('p, 'w, 'i) registries
    \<Rightarrow> fatal + ('p, 'w, 'i) registries" where
  "REGISTER_SOLVER_CREATOR ty creator rs =
     (case SolverRegistry_AddCreator ty (creator Float) (registry_float rs) of
        (Inl e, _) \<Rightarrow> Inl e
      | (Inr _, rf) \<Rightarrow>
          (case SolverRegistry_AddCreator ty (creator Double) (registry_double rs) of
             (Inl e, _) \<Rightarrow> Inl e
           | (Inr _, rd) \<Rightarrow> Inr (rs\<lparr>registry_float := rf, registry_double := rd\<rparr>)))"

definition Creator_Solver :: "string \<Rightarrow> Dtype \<Rightarrow> ('p, 'p heap, 'p object) Creator" where
  "Creator_Solver ty d param = new_object (ty @ ''Solver'') d param"

definition REGISTER_SOLVER_CLASS ::
  "string \<Rightarrow> ('p, 'p heap, 'p object) registries \<Rightarrow> fatal + ('p, 'p heap, 'p object) registries" where
  "REGISTER_SOLVER_CLASS ty = REGISTER_SOLVER_CREATOR ty (Creator_Solver ty)"

section \<open>InputLayer (input\_layer.hpp)\<close>

text \<open>
  The bodies of \<^verbatim>\<open>Reshape\<close>, \<^verbatim>\<open>Forward_cpu\<close> and \<^verbatim>\<open>Backward_cpu\<close> are empty. Each takes the
  blobs its vectors point to and the layer object, and returns them.
\<close>

definition InputLayer_Reshape :: "'b list \<Rightarrow> 'b list \<Rightarrow> 'l \<Rightarrow> 'b list \<times> 'b list \<times> 'l" where
  "InputLayer_Reshape bottom_blobs top_blobs this = (bottom_blobs, top_blobs, this)"

definition InputLayer_type :: string where
  "InputLayer_type = ''Input''"

definition InputLayer_ExactNumBottomBlobs :: int where
  "InputLayer_ExactNumBottomBlobs = 0"

definition InputLayer_MinTopBlobs :: int where
  "InputLayer_MinTopBlobs = 1"

definition InputLayer_Forward_cpu :: "'b list \<Rightarrow> 'b list \<Rightarrow> 'l \<Rightarrow> 'b list \<times> 'b list \<times> 'l" where
  "InputLayer_Forward_cpu bottom_blobs top_blobs this = (bottom_blobs, top_blobs, this)"

definition InputLayer_Backward_cpu ::
  "'b list \<Rightarrow> bool list \<Rightarrow> 'b list \<Rightarrow> 'l \<Rightarrow> 'b list \<times> 'b list \<times> 'l" where
  "InputLayer_Backward_cpu top_blobs propagate_down bottom_blobs this = (top_blobs, bottom_blobs, this)"

section \<open>The prefetching data layer (base\_data\_layer.cpp)\<close>

subsection \<open>Blobs and batches\<close>

text \<open>
  A \<^verbatim>\<open>Batch<Dtype>*\<close> points to one of the batches owned by the vector \<^verbatim>\<open>prefetch_\<close>; the
  pointer to \<^verbatim>\<open>prefetch_[i]\<close> is the index \<open>i\<close>.
\<close>

type_synonym batch_ptr = nat

text \<open>
  The device side of a blob's memory: no copy, a copy whose transfer was issued on the
  stream and has not been waited for, or a complete copy.
\<close>

datatype 'd device_copy = NoCopy | InFlight 'd | OnDevice 'd

text \<open>
  A blob of a batch: its shape, the contents \<open>'d\<close> of its host memory and the state of its
  device memory.
\<close>

record 'd Blob =
  shape :: "nat list"
  cpu_data :: 'd
  gpu_data :: "'d device_copy"

record 'd Batch =
  data :: "'d Blob"
  label :: "'d Blob"

text \<open>
  A top blob after \<^verbatim>\<open>ReshapeLike\<close> and \<^verbatim>\<open>set_cpu_data\<close>: its shape, and the memory its data
  pointer refers to. \<^verbatim>\<open>set_cpu_data\<close> copies nothing; the pointer refers to the memory of a
  blob of a batch, or to the blob's own memory before the first call.
\<close>

datatype mem_ref = OwnMemory | DataOf batch_ptr | LabelOf batch_ptr

record top_blob =
  top_shape :: "nat list"
  top_cpu_data :: mem_ref

subsection \<open>The collaborators of the layer\<close>

text \<open>
  \<^verbatim>\<open>load_batch\<close> is pure virtual. It works on the batch it is given and on the state \<open>'x\<close>
  of what lies outside the layer (the data source, the random generator); it returns, or
  it throws \<^verbatim>\<open>boost::thread_interrupted\<close> or another exception \<open>'e\<close>, in each case leaving
  a batch and an outside state behind.
\<close>

datatype 'e thrown = thread_interrupted | other_exception 'e

datatype ('d, 'x, 'e) load_result = Loaded "'d Batch" 'x | Thrown "'e thrown" "'d Batch" 'x

datatype Brew = CPU | GPU

text \<open>
  What the layer is compiled and run with: the macro \<^verbatim>\<open>CPU_ONLY\<close>, \<^verbatim>\<open>Caffe::mode()\<close>, the
  batch that \<^verbatim>\<open>new Batch<Dtype>()\<close> makes, the virtual functions \<^verbatim>\<open>load_batch\<close> and
  \<^verbatim>\<open>DataLayerSetUp\<close> of the subclass, and whether a CUDA call made in a given outside state
  succeeds (\<^verbatim>\<open>CUDA_CHECK\<close> aborts when it does not). \<^verbatim>\<open>DataLayerSetUp\<close> receives the vector
  \<^verbatim>\<open>top\<close> by const reference: it can change each blob the vector points to and each batch,
  given as functions of the index, and the outside state.
\<close>

record ('d, 'x, 'e) env =
  CPU_ONLY :: bool
  mode :: Brew
  new_Batch :: "'d Batch"
  load_batch :: "'x \<Rightarrow> 'd Batch \<Rightarrow> ('d, 'x, 'e) load_result"
  DataLayerSetUp :: "top_blob list \<Rightarrow> 'd Batch list \<Rightarrow> 'x
    \<Rightarrow> (nat \<Rightarrow> top_blob \<Rightarrow> top_blob) \<times> (nat \<Rightarrow> 'd Batch \<Rightarrow> 'd Batch) \<times> 'x"
  cuda_ok :: "'x \<Rightarrow> bool"

definition use_gpu :: "('d, 'x, 'e) env \<Rightarrow> bool" where
  "use_gpu env = (\<not> CPU_ONLY env \<and> mode env = GPU)"

subsection \<open>The blocking queue\<close>

text \<open>
  Modelled from the spec: \<^verbatim>\<open>BlockingQueue::push\<close> (blocking\_queue.hpp and blocking\_queue.cpp
  are not among the sources). \<open>Push(item)\<close> appends to the tail and never fails.
\<close>

definition queue_push :: "'a list \<Rightarrow> 'a \<Rightarrow> 'a list" where
  "queue_push q item = q @ [item]"

text \<open>
  Modelled from the spec: \<^verbatim>\<open>BlockingQueue::pop\<close> (not among the sources either). \<open>Pop()\<close>
  blocks the calling thread until an item is available, then removes and returns the head
  (FIFO); \<open>None\<close> is the blocked caller.
\<close>

definition queue_pop :: "'a list \<Rightarrow> ('a \<times> 'a list) option" where
  "queue_pop q = (case q of [] \<Rightarrow> None | item # rest \<Rightarrow> Some (item, rest))"

subsection \<open>The device transfer\<close>

text \<open>
  Modelled from the spec: \<^verbatim>\<open>SyncedMemory::async_gpu_push\<close> (syncedmem.cpp is not among the
  sources). It issues, on the stream, an asynchronous transfer of the blob's contents to the
  device.
\<close>

definition async_gpu_push :: "'d Blob \<Rightarrow> 'd Blob" where
  "async_gpu_push blob = blob\<lparr>gpu_data := InFlight (cpu_data blob)\<rparr>"

text \<open>
  Modelled from the spec: the effect of \<^verbatim>\<open>cudaStreamSynchronize\<close> on a blob. Synchronizing on
  the stream waits for the completion of the transfers issued on it.
\<close>

definition stream_synchronized :: "'d Blob \<Rightarrow> 'd Blob" where
  "stream_synchronized blob =
     (case gpu_data blob of InFlight c \<Rightarrow> blob\<lparr>gpu_data := OnDevice c\<rparr> | _ \<Rightarrow> blob)"

text \<open>The two pushes of the worker loop, before the stream is synchronized.\<close>

definition gpu_pushes :: "bool \<Rightarrow> 'd Batch \<Rightarrow> 'd Batch" where
  "gpu_pushes output_labels batch =
     (let batch1 = batch\<lparr>data := async_gpu_push (data batch)\<rparr>
      in if output_labels then batch1\<lparr>label := async_gpu_push (label batch1)\<rparr> else batch1)"

text \<open>
  The stream is local to \<^verbatim>\<open>InternalThreadEntry\<close>, and every iteration waits for what it has
  issued: the transfers pending on the stream are those of the batch of this iteration.
\<close>

definition cudaStreamSynchronize :: "'d Batch \<Rightarrow> 'd Batch" where
  "cudaStreamSynchronize batch =
     batch\<lparr>data := stream_synchronized (data batch), label := stream_synchronized (label batch)\<rparr>"

subsection \<open>The state of the layer and of its two threads\<close>

text \<open>
  Where the prefetch thread is in \<^verbatim>\<open>InternalThreadEntry\<close>: not started, at the entry (before
  the stream is created), at the loop condition, in \<^verbatim>\<open>prefetch_free_.pop()\<close>, in
  \<^verbatim>\<open>load_batch(batch)\<close>, after it (before the transfer and the push), after the loop and the
  handler (before the stream is destroyed), returned, or terminated by an exception that
  left the function or by a failed check.
\<close>

datatype 'e abort = Uncaught 'e | CudaCheckFailed

datatype 'e pc_worker =
    W_NotStarted
  | W_Entry
  | W_LoopHead
  | W_Pop
  | W_Filling batch_ptr
  | W_Loaded batch_ptr
  | W_LoopExit
  | W_Returned
  | W_Aborted "'e abort"

text \<open>
  Where the thread that drives the net is: before \<^verbatim>\<open>LayerSetUp\<close>, between two calls of
  \<^verbatim>\<open>Forward_cpu\<close>, inside \<^verbatim>\<open>Forward_cpu\<close> in \<^verbatim>\<open>prefetch_full_.pop\<close>, or after an access to
  \<^verbatim>\<open>top[0]\<close> or \<^verbatim>\<open>top[1]\<close> outside the vector (undefined behaviour).
\<close>

datatype pc_consumer = C_NotSetUp | C_Idle | C_Pop | C_Undefined

text \<open>
  The members of the layer (named as in the source, without the trailing underscore), the
  vector \<^verbatim>\<open>top\<close> the net passes to \<^verbatim>\<open>LayerSetUp\<close> and to
  \<^verbatim>\<open>Forward_cpu\<close>, the outside state, the interruption request of the prefetch thread, the
  two program counters, and a history: the payload seen through \<^verbatim>\<open>top[0]\<close> at each return of
  \<^verbatim>\<open>Forward_cpu\<close>.
\<close>

record ('d, 'x, 'e) layer =
  prefetch :: "'d Batch list"
  prefetch_free :: "batch_ptr list"
  prefetch_full :: "batch_ptr list"
  prefetch_current :: "batch_ptr option"
  output_labels :: bool
  top_vec :: "top_blob list"
  outside :: 'x
  interruption_requested :: bool
  worker :: "'e pc_worker"
  consumer :: pc_consumer
  observed :: "'d list"

subsection \<open>Construction and setup\<close>

text \<open>
  The constructor: \<open>N\<close> is \<^verbatim>\<open>param.data_param().prefetch()\<close>. \<^verbatim>\<open>output_labels_\<close> is not
  initialized; \<open>indeterminate\<close> is the value it happens to have.
\<close>

fun constructor_loop :: "nat list \<Rightarrow> batch_ptr list \<Rightarrow> batch_ptr list" where
  "constructor_loop [] free = free"
| "constructor_loop (i # rest) free = constructor_loop rest (queue_push free i)"

definition BasePrefetchingDataLayer ::
  "('d, 'x, 'e) env \<Rightarrow> nat \<Rightarrow> bool \<Rightarrow> top_blob list \<Rightarrow> 'x \<Rightarrow> ('d, 'x, 'e) layer" where
  "BasePrefetchingDataLayer env N indeterminate top_blobs x =
     \<lparr>prefetch = replicate N (new_Batch env),
      prefetch_free = constructor_loop [0..<N] [],
      prefetch_full = [],
      prefetch_current = None,
      output_labels = indeterminate,
      top_vec = top_blobs,
      outside = x,
      interruption_requested = False,
      worker = W_NotStarted,
      consumer = C_NotSetUp,
      observed = []\<rparr>"

text \<open>A function of the index and the element, applied to every element of a vector.\<close>

definition map_index :: "(nat \<Rightarrow> 'a \<Rightarrow> 'a) \<Rightarrow> 'a list \<Rightarrow> 'a list" where
  "map_index f xs = map (\<lambda>i. f i (xs ! i)) [0..<length xs]"

text \<open>
  \<^verbatim>\<open>BaseDataLayer::LayerSetUp\<close>: sets the flag and calls \<^verbatim>\<open>DataLayerSetUp\<close>. The data
  transformer belongs to the outside state.
\<close>

definition BaseDataLayer_LayerSetUp ::
  "('d, 'x, 'e) env \<Rightarrow> ('d, 'x, 'e) layer \<Rightarrow> ('d, 'x, 'e) layer" where
  "BaseDataLayer_LayerSetUp env s =
     (let s1 = (if length (top_vec s) = 1 then s\<lparr>output_labels := False\<rparr>
                else s\<lparr>output_labels := True\<rparr>)
      in case DataLayerSetUp env (top_vec s1) (prefetch s1) (outside s1) of
           (on_top, on_batch, x) \<Rightarrow>
             s1\<lparr>top_vec := map_index on_top (top_vec s1),
                prefetch := map_index on_batch (prefetch s1),
                outside := x\<rparr>)"

text \<open>
  \<^verbatim>\<open>BasePrefetchingDataLayer::LayerSetUp\<close>: the calls of \<^verbatim>\<open>mutable_cpu_data()\<close> and
  \<^verbatim>\<open>mutable_gpu_data()\<close> allocate memory, which the model does not distinguish from
  memory not yet allocated; \<^verbatim>\<open>StartInternalThread()\<close> starts the prefetch thread.
\<close>

definition LayerSetUp ::
  "('d, 'x, 'e) env \<Rightarrow> ('d, 'x, 'e) layer \<Rightarrow> ('d, 'x, 'e) layer" where
  "LayerSetUp env s = (BaseDataLayer_LayerSetUp env s)\<lparr>worker := W_Entry, consumer := C_Idle\<rparr>"

subsection \<open>The prefetch thread\<close>

text \<open>
  Modelled from the spec: \<^verbatim>\<open>must_stop()\<close> (internal\_thread.hpp and internal\_thread.cpp are
  not among the sources). The worker loop runs until stop is signaled; \<^verbatim>\<open>must_stop()\<close> reads
  the signal.
\<close>

definition must_stop :: "('d, 'x, 'e) layer \<Rightarrow> bool" where
  "must_stop s = interruption_requested s"

text \<open>
  Modelled from the spec: \<^verbatim>\<open>StopInternalThread()\<close> (not among the sources either). \<open>Stop()\<close>
  signals cancellation; a \<open>Pop\<close> that is blocked while the signal is set wakes with the
  interruption, which is the case \<open>None\<close> of the pop in \<open>InternalThreadEntry\<close> below. The
  join that follows the signal is the prefetch thread reaching its end.
\<close>

definition StopInternalThread :: "('d, 'x, 'e) layer \<Rightarrow> ('d, 'x, 'e) layer" where
  "StopInternalThread s = s\<lparr>interruption_requested := True\<rparr>"

text \<open>
  One step of \<^verbatim>\<open>InternalThreadEntry\<close>, from one of the places named by \<open>pc_worker\<close> to the next;
  \<open>None\<close> when the thread is blocked or has ended.
\<close>

definition InternalThreadEntry :: "('d, 'x, 'e) env \<Rightarrow> ('d, 'x, 'e) layer \<Rightarrow> ('d, 'x, 'e) layer option" where
  "InternalThreadEntry env s =
     (case worker s of
        W_NotStarted \<Rightarrow> None
      | W_Entry \<Rightarrow>
          Some (if use_gpu env \<and> \<not> cuda_ok env (outside s)
                then s\<lparr>worker := W_Aborted CudaCheckFailed\<rparr>
                else s\<lparr>worker := W_LoopHead\<rparr>)
      | W_LoopHead \<Rightarrow>
          Some (if must_stop s then s\<lparr>worker := W_LoopExit\<rparr> else s\<lparr>worker := W_Pop\<rparr>)
      | W_Pop \<Rightarrow>
          (case queue_pop (prefetch_free s) of
             Some (batch, rest) \<Rightarrow> Some (s\<lparr>prefetch_free := rest, worker := W_Filling batch\<rparr>)
           | None \<Rightarrow>
               if interruption_requested s then Some (s\<lparr>worker := W_LoopExit\<rparr>) else None)
      | W_Filling batch \<Rightarrow>
          (case load_batch env (outside s) (prefetch s ! batch) of
             Loaded batch' x \<Rightarrow>
               Some (s\<lparr>prefetch := (prefetch s)[batch := batch'], outside := x,
                       worker := W_Loaded batch\<rparr>)
           | Thrown thread_interrupted batch' x \<Rightarrow>
               Some (s\<lparr>prefetch := (prefetch s)[batch := batch'], outside := x,
                       worker := W_LoopExit\<rparr>)
           | Thrown (other_exception e) batch' x \<Rightarrow>
               Some (s\<lparr>prefetch := (prefetch s)[batch := batch'], outside := x,
                       worker := W_Aborted (Uncaught e)\<rparr>))
      | W_Loaded batch \<Rightarrow>
          Some (if use_gpu env
                then (let pushed = gpu_pushes (output_labels s) (prefetch s ! batch)
                      in if cuda_ok env (outside s)
                         then s\<lparr>prefetch := (prefetch s)[batch := cudaStreamSynchronize pushed],
                                prefetch_full := queue_push (prefetch_full s) batch,
                                worker := W_LoopHead\<rparr>
                         else s\<lparr>prefetch := (prefetch s)[batch := pushed],
                                worker := W_Aborted CudaCheckFailed\<rparr>)
                else s\<lparr>prefetch_full := queue_push (prefetch_full s) batch,
                       worker := W_LoopHead\<rparr>)
      | W_LoopExit \<Rightarrow>
          Some (if use_gpu env \<and> \<not> cuda_ok env (outside s)
                then s\<lparr>worker := W_Aborted CudaCheckFailed\<rparr>
                else s\<lparr>worker := W_Returned\<rparr>)
      | W_Returned \<Rightarrow> None
      | W_Aborted a \<Rightarrow> None)"

subsection \<open>The consumer\<close>

text \<open>
  The writes of \<^verbatim>\<open>Forward_cpu\<close> to the blobs of \<^verbatim>\<open>top\<close>, for the batch \<open>b\<close> that the pop has
  returned: \<open>None\<close> when \<^verbatim>\<open>top[0]\<close> or \<^verbatim>\<open>top[1]\<close> does not exist.
\<close>

definition expose ::
  "bool \<Rightarrow> 'd Batch list \<Rightarrow> batch_ptr \<Rightarrow> top_blob list \<Rightarrow> top_blob list option" where
  "expose labels batches b top_blobs =
     (if length top_blobs < 1 then None
      else let top1 = top_blobs[0 := \<lparr>top_shape = shape (data (batches ! b)),
                                      top_cpu_data = DataOf b\<rparr>]
           in if labels
              then (if length top_blobs < 2 then None
                    else Some (top1[1 := \<lparr>top_shape = shape (label (batches ! b)),
                                          top_cpu_data = LabelOf b\<rparr>]))
              else Some top1)"

text \<open>
  One step of \<^verbatim>\<open>Forward_cpu\<close>: from the call to the pop, handing back the batch held; and
  from the pop to the return, \<open>None\<close> while the full queue is empty.
\<close>

definition Forward_cpu :: "('d, 'x, 'e) layer \<Rightarrow> ('d, 'x, 'e) layer option" where
  "Forward_cpu s =
     (case consumer s of
        C_NotSetUp \<Rightarrow> None
      | C_Idle \<Rightarrow>
          Some ((case prefetch_current s of
                   Some current \<Rightarrow> s\<lparr>prefetch_free := queue_push (prefetch_free s) current\<rparr>
                 | None \<Rightarrow> s)\<lparr>consumer := C_Pop\<rparr>)
      | C_Pop \<Rightarrow>
          (case queue_pop (prefetch_full s) of
             None \<Rightarrow> None
           | Some (batch, rest) \<Rightarrow>
               (case expose (output_labels s) (prefetch s) batch (top_vec s) of
                  None \<Rightarrow>
                    Some (s\<lparr>prefetch_full := rest, prefetch_current := Some batch,
                            consumer := C_Undefined\<rparr>)
                | Some top_blobs \<Rightarrow>
                    Some (s\<lparr>prefetch_full := rest, prefetch_current := Some batch,
                            top_vec := top_blobs, consumer := C_Idle,
                            observed := observed s @ [cpu_data (data (prefetch s ! batch))]\<rparr>)))
      | C_Undefined \<Rightarrow> None)"

subsection \<open>Interleavings\<close>

text \<open>
  A schedule names, step by step, who moves: the prefetch thread, the thread of the net
  (\<^verbatim>\<open>LayerSetUp\<close> first, then \<^verbatim>\<open>Forward_cpu\<close>), or the request to stop. \<open>run\<close> is \<open>None\<close> when the
  schedule asks a blocked or ended thread to move.
\<close>

datatype actor = Worker | Consumer | Stop

definition sys_step ::
  "('d, 'x, 'e) env \<Rightarrow> actor \<Rightarrow> ('d, 'x, 'e) layer \<Rightarrow> ('d, 'x, 'e) layer option" where
  "sys_step env a s =
     (case a of
        Worker \<Rightarrow> InternalThreadEntry env s
      | Consumer \<Rightarrow> if consumer s = C_NotSetUp then Some (LayerSetUp env s) else Forward_cpu s
      | Stop \<Rightarrow> Some (StopInternalThread s))"

fun run ::
  "('d, 'x, 'e) env \<Rightarrow> actor list \<Rightarrow> ('d, 'x, 'e) layer \<Rightarrow> ('d, 'x, 'e) layer option" where
  "run env [] s = Some s"
| "run env (a # sched) s =
     (case sys_step env a s of None \<Rightarrow> None | Some s' \<Rightarrow> run env sched s')"

section \<open>Notions used in the properties\<close>

subsection \<open>A fill function that numbers the batches\<close>

text \<open>
  The fill function of the testable property: \<^verbatim>\<open>load_batch\<close> writes the value of a counter into
  the payload and increments the counter, which is the outside state. The environments
  below use it with a \<^verbatim>\<open>DataLayerSetUp\<close> that changes nothing; in \<open>interrupted_env\<close> every
  \<^verbatim>\<open>load_batch\<close> is interrupted, in \<open>failing_env\<close> the second one throws, in \<open>gpu_env\<close> the mode
  is GPU and \<^verbatim>\<open>load_batch\<close> fills payload and label.
\<close>

definition seq_fill :: "nat \<Rightarrow> nat Batch \<Rightarrow> (nat, nat, 'e) load_result" where
  "seq_fill x batch = Loaded (batch\<lparr>data := (data batch)\<lparr>cpu_data := x\<rparr>\<rparr>) (Suc x)"

definition empty_Batch :: "nat Batch" where
  "empty_Batch = \<lparr>data = \<lparr>shape = [], cpu_data = 0, gpu_data = NoCopy\<rparr>,
                   label = \<lparr>shape = [], cpu_data = 0, gpu_data = NoCopy\<rparr>\<rparr>"

definition sequence_env :: "Brew \<Rightarrow> (nat, nat, unit) env" where
  "sequence_env m = \<lparr>CPU_ONLY = False, mode = m, new_Batch = empty_Batch,
      load_batch = seq_fill,
      DataLayerSetUp = (\<lambda>top_blobs batches x. (\<lambda>i blob. blob, \<lambda>i batch. batch, x)),
      cuda_ok = (\<lambda>x. True)\<rparr>"

definition interrupted_env :: "(nat, nat, unit) env" where
  "interrupted_env = (sequence_env CPU)\<lparr>load_batch := (\<lambda>x batch. Thrown thread_interrupted batch x)\<rparr>"

definition failing_env :: "(nat, nat, string) env" where
  "failing_env = \<lparr>CPU_ONLY = False, mode = CPU, new_Batch = empty_Batch,
      load_batch = (\<lambda>x batch. if x = 0 then seq_fill x batch
                               else Thrown (other_exception ''corrupt record'') batch x),
      DataLayerSetUp = (\<lambda>top_blobs batches x. (\<lambda>i blob. blob, \<lambda>i batch. batch, x)),
      cuda_ok = (\<lambda>x. True)\<rparr>"

definition gpu_env :: "(nat, nat, unit) env" where
  "gpu_env = (sequence_env GPU)\<lparr>load_batch := (\<lambda>x batch.
      Loaded \<lparr>data = \<lparr>shape = [1], cpu_data = x, gpu_data = NoCopy\<rparr>,
              label = \<lparr>shape = [1], cpu_data = 10 + x, gpu_data = NoCopy\<rparr>\<rparr> (Suc x))\<rparr>"

definition one_top :: "top_blob list" where
  "one_top = [\<lparr>top_shape = [], top_cpu_data = OwnMemory\<rparr>]"

definition two_tops :: "top_blob list" where
  "two_tops = [\<lparr>top_shape = [], top_cpu_data = OwnMemory\<rparr>, \<lparr>top_shape = [], top_cpu_data = OwnMemory\<rparr>]"

text \<open>
  One round of a schedule: \<^verbatim>\<open>Forward_cpu\<close> is called, the prefetch thread passes the loop
  condition, pops, fills and publishes, and \<^verbatim>\<open>Forward_cpu\<close> returns.
\<close>

definition next_round :: "actor list" where
  "next_round = [Consumer, Worker, Worker, Worker, Worker, Consumer]"

subsection \<open>Where the buffers are\<close>

text \<open>
  The worker holds a buffer from its pop to its push. The consumer holds the buffer
  \<^verbatim>\<open>prefetch_current_\<close> points to, except inside \<^verbatim>\<open>Forward_cpu\<close> between the push that hands it
  back and the return of the pop: there the pointer is still set, and the buffer is in the
  free queue or with the worker.
\<close>

definition held_by_worker :: "('d, 'x, 'e) layer \<Rightarrow> batch_ptr list" where
  "held_by_worker s = (case worker s of W_Filling b \<Rightarrow> [b] | W_Loaded b \<Rightarrow> [b] | _ \<Rightarrow> [])"

definition held_by_consumer :: "('d, 'x, 'e) layer \<Rightarrow> batch_ptr list" where
  "held_by_consumer s =
     (if consumer s = C_Pop then []
      else case prefetch_current s of Some b \<Rightarrow> [b] | None \<Rightarrow> [])"

definition places :: "('d, 'x, 'e) layer \<Rightarrow> batch_ptr list" where
  "places s = prefetch_free s @ prefetch_full s @ held_by_worker s @ held_by_consumer s"

definition buffer_count :: "('d, 'x, 'e) layer \<Rightarrow> nat" where
  "buffer_count s = length (prefetch_free s) + length (prefetch_full s)
                    + length (held_by_worker s) + length (held_by_consumer s)"

text \<open>
  An environment in which \<^verbatim>\<open>load_batch\<close> always returns and no CUDA call fails.
\<close>

definition reliable :: "('d, 'x, 'e) env \<Rightarrow> bool" where
  "reliable env \<longleftrightarrow> (\<forall>x batch. \<exists>batch' x'. load_batch env x batch = Loaded batch' x')
                    \<and> (use_gpu env \<longrightarrow> (\<forall>x. cuda_ok env x))"

subsection \<open>Invariants\<close>

text \<open>
  Before \<^verbatim>\<open>LayerSetUp\<close> the prefetch thread does not run and nothing has been published.
\<close>

definition before_setup :: "('d, 'x, 'e) layer \<Rightarrow> bool" where
  "before_setup s \<longleftrightarrow> (consumer s = C_NotSetUp \<longrightarrow>
      worker s = W_NotStarted \<and> prefetch_full s = [] \<and> prefetch_current s = None \<and> observed s = [])"

text \<open>
  The buffers in the four places are buffers of the pool, none twice; in a reliable
  environment they are all of them.
\<close>

definition owned :: "('d, 'x, 'e) env \<Rightarrow> nat \<Rightarrow> ('d, 'x, 'e) layer \<Rightarrow> bool" where
  "owned env N s \<longleftrightarrow> before_setup s \<and> length (prefetch s) = N
     \<and> mset (places s) \<subseteq># mset [0..<N]
     \<and> (reliable env \<longrightarrow> mset (places s) = mset [0..<N])"

text \<open>
  The prefetch thread has left its loop: it is behind the loop, has returned, or was
  terminated.
\<close>

definition worker_ended :: "('d, 'x, 'e) layer \<Rightarrow> bool" where
  "worker_ended s =
     (case worker s of
        W_LoopExit \<Rightarrow> True | W_Returned \<Rightarrow> True | W_Aborted a \<Rightarrow> True | _ \<Rightarrow> False)"

text \<open>
  The next step of the prefetch thread leaves the loop while the thread holds \<open>b\<close>:
  \<^verbatim>\<open>load_batch\<close> throws, or the check of \<^verbatim>\<open>cudaStreamSynchronize\<close> fails.
\<close>

definition drops :: "('d, 'x, 'e) env \<Rightarrow> ('d, 'x, 'e) layer \<Rightarrow> batch_ptr \<Rightarrow> bool" where
  "drops env s b \<longleftrightarrow>
     (worker s = W_Filling b
        \<and> (case load_batch env (outside s) (prefetch s ! b) of
              Loaded batch' x \<Rightarrow> False | Thrown t batch' x \<Rightarrow> True))
   \<or> (worker s = W_Loaded b \<and> use_gpu env \<and> \<not> cuda_ok env (outside s))"

text \<open>
  All buffers of the pool are in the four places, or the prefetch thread has left its loop
  and all but one are.
\<close>

definition circulating :: "nat \<Rightarrow> ('d, 'x, 'e) layer \<Rightarrow> bool" where
  "circulating N s \<longleftrightarrow> before_setup s
     \<and> (mset (places s) = mset [0..<N]
        \<or> worker_ended s \<and> (\<exists>b. add_mset b (mset (places s)) = mset [0..<N]))"

text \<open>
  The payloads filled and not yet seen by the consumer, oldest first; with the fill function
  \<open>seq_fill\<close> the payloads seen and these are the consecutive numbers from \<open>c0\<close>, and the
  counter of a prefetch thread that is still in its loop is the next number.
\<close>

definition payload :: "'d Batch list \<Rightarrow> batch_ptr \<Rightarrow> 'd" where
  "payload batches b = cpu_data (data (batches ! b))"

definition loaded_by_worker :: "('d, 'x, 'e) layer \<Rightarrow> batch_ptr list" where
  "loaded_by_worker s = (case worker s of W_Loaded b \<Rightarrow> [b] | _ \<Rightarrow> [])"

definition ready :: "('d, 'x, 'e) layer \<Rightarrow> 'd list" where
  "ready s = map (payload (prefetch s)) (prefetch_full s @ loaded_by_worker s)"

definition worker_live :: "('d, 'x, 'e) layer \<Rightarrow> bool" where
  "worker_live s =
     (case worker s of
        W_Entry \<Rightarrow> True | W_LoopHead \<Rightarrow> True | W_Pop \<Rightarrow> True
      | W_Filling b \<Rightarrow> True | W_Loaded b \<Rightarrow> True | _ \<Rightarrow> False)"

definition fifo :: "(nat, nat, 'e) env \<Rightarrow> nat \<Rightarrow> (nat, nat, 'e) layer \<Rightarrow> bool" where
  "fifo env c0 s \<longleftrightarrow>
     (consumer s = C_NotSetUp \<longrightarrow> outside (LayerSetUp env s) = c0)
   \<and> (consumer s = C_Idle \<or> consumer s = C_Pop \<longrightarrow>
        observed s @ ready s = [c0..<c0 + length (observed s @ ready s)]
        \<and> (worker_live s \<longrightarrow> outside s = c0 + length (observed s @ ready s)))
   \<and> observed s = [c0..<c0 + length (observed s)]"

text \<open>
  Between two calls of \<^verbatim>\<open>Forward_cpu\<close> the current batch holds the payload seen last and
  \<^verbatim>\<open>top[0]\<close> refers to it.
\<close>

definition current_view :: "('d, 'x, 'e) layer \<Rightarrow> bool" where
  "current_view s \<longleftrightarrow>
     (\<forall>b. consumer s = C_Idle \<and> prefetch_current s = Some b \<longrightarrow>
        observed s \<noteq> [] \<and> last (observed s) = payload (prefetch s) b
        \<and> top_vec s \<noteq> [] \<and> top_cpu_data (top_vec s ! 0) = DataOf b)"

text \<open>
  The state between two rounds of the schedule above.
\<close>

definition between_rounds :: "('d, 'x, 'e) layer \<Rightarrow> bool" where
  "between_rounds s \<longleftrightarrow> consumer s = C_Idle \<and> worker s = W_LoopHead \<and> \<not> interruption_requested s
     \<and> prefetch_full s = [] \<and> (prefetch_current s \<noteq> None \<or> prefetch_free s \<noteq> [])
     \<and> top_vec s \<noteq> [] \<and> (output_labels s \<longrightarrow> 2 \<le> length (top_vec s))"

text \<open>
  The device holds a complete copy of the payload, and of the label when labels are output.
\<close>

definition device_consistent :: "bool \<Rightarrow> 'd Batch \<Rightarrow> bool" where
  "device_consistent labels batch \<longleftrightarrow>
     gpu_data (data batch) = OnDevice (cpu_data (data batch))
   \<and> (labels \<longrightarrow> gpu_data (label batch) = OnDevice (cpu_data (label batch)))"

definition published_consistent :: "('d, 'x, 'e) layer \<Rightarrow> bool" where
  "published_consistent s \<longleftrightarrow>
     (\<forall>b \<in> set (prefetch_full s). device_consistent (output_labels s) (prefetch s ! b))"

text \<open>
  The flag set by \<^verbatim>\<open>LayerSetUp\<close> for a vector \<^verbatim>\<open>top\<close> of \<open>n\<close> blobs.
\<close>

definition labels_flag :: "nat \<Rightarrow> ('d, 'x, 'e) layer \<Rightarrow> bool" where
  "labels_flag n s \<longleftrightarrow> length (top_vec s) = n
     \<and> (consumer s \<noteq> C_NotSetUp \<longrightarrow> output_labels s = (n \<noteq> 1))"

definition defined_tops :: "nat \<Rightarrow> ('d, 'x, 'e) layer \<Rightarrow> bool" where
  "defined_tops n s \<longleftrightarrow> labels_flag n s \<and> consumer s \<noteq> C_Undefined"

text \<open>
  After \<^verbatim>\<open>load_batch\<close> has thrown \<open>t\<close> while filling \<open>b\<close>: where the prefetch thread can be, and
  what holds of \<open>b\<close> and of the full queue, of which \<open>published\<close> was the contents at the
  throw.
\<close>

definition thrown_to :: "'e thrown \<Rightarrow> 'e pc_worker" where
  "thrown_to t = (case t of thread_interrupted \<Rightarrow> W_LoopExit
                  | other_exception e \<Rightarrow> W_Aborted (Uncaught e))"

definition worker_after :: "'e thrown \<Rightarrow> 'e pc_worker \<Rightarrow> bool" where
  "worker_after t w =
     (case t of
        thread_interrupted \<Rightarrow> w = W_LoopExit \<or> w = W_Returned \<or> w = W_Aborted CudaCheckFailed
      | other_exception e \<Rightarrow> w = W_Aborted (Uncaught e))"

definition aftermath ::
  "'e thrown \<Rightarrow> batch_ptr \<Rightarrow> batch_ptr list \<Rightarrow> ('d, 'x, 'e) layer \<Rightarrow> bool" where
  "aftermath t b published s \<longleftrightarrow>
     before_setup s \<and> worker_after t (worker s) \<and> b \<notin> set (places s)
   \<and> suffix (prefetch_full s) published"

section \<open>Properties of the registries\<close>

lemma map_count_eq_0: "map_count m k = 0 \<longleftrightarrow> k \<notin> fst ` set m"
  by (simp add: map_count_def map_of_eq_None_iff [symmetric] split: option.splits)

lemma map_count_eq_1: "map_count m k = 1 \<longleftrightarrow> k \<in> fst ` set m"
  using map_of_eq_None_iff [of m k] by (cases "map_of m k") (auto simp: map_count_def)

lemma LayerTypeList_loop_eq: "LayerTypeList_loop m acc = acc @ map fst m"
  by (induction m arbitrary: acc) simp_all

lemma SolverTypeList_loop_eq: "SolverTypeList_loop m acc = acc @ map fst m"
  by (induction m arbitrary: acc) simp_all

lemma LayerTypeList_keys: "LayerTypeList registry = map fst registry"
  by (simp add: LayerTypeList_def LayerTypeList_loop_eq)

lemma SolverTypeList_keys: "SolverTypeList registry = map fst registry"
  by (simp add: SolverTypeList_def SolverTypeList_loop_eq)

lemma TypeListString_loop_False:
  "TypeListString_loop False ts str = str @ concat (map (\<lambda>t. '', '' @ t) ts)"
  by (induction ts arbitrary: str) simp_all

lemma join_names_Cons: "join_names (t # ts) = t @ concat (map (\<lambda>t. '', '' @ t) ts)"
  by (induction ts arbitrary: t) simp_all

lemma TypeListString_loop_join: "TypeListString_loop True ts [] = join_names ts"
  by (cases ts) (simp_all add: TypeListString_loop_False join_names_Cons)

lemma sublist_join_names: "t \<in> set ts \<Longrightarrow> sublist t (join_names ts)"
proof (induction ts rule: join_names.induct)
  case 1
  then show ?case by simp
next
  case (2 t')
  then show ?case by simp
next
  case (3 t' u rest)
  show ?case
  proof (cases "t = t'")
    case True
    then show ?thesis using sublist_append_rightI [of t' "'', '' @ join_names (u # rest)"] by simp
  next
    case False
    with 3 have "sublist t (join_names (u # rest))" by simp
    then obtain ps ss where "join_names (u # rest) = ps @ t @ ss"
      by (auto simp: sublist_def)
    then have "join_names (t' # u # rest) = (t' @ '', '' @ ps) @ t @ ss"
      by simp
    then show ?thesis
      unfolding sublist_def by blast
  qed
qed

lemma keys_map_assign: "fst ` set (map_assign k v m) = insert k (fst ` set m)"
proof (induction m)
  case Nil
  then show ?case by simp
next
  case (Cons e m)
  obtain k' v' where e: "e = (k', v')" by (cases e)
  show ?case
  proof (cases "k < k'")
    case True
    with e show ?thesis by simp
  next
    case False
    show ?thesis
    proof (cases "k = k'")
      case True
      with e show ?thesis by simp
    next
      case neq: False
      with False e Cons.IH show ?thesis by (simp add: insert_commute)
    qed
  qed
qed

lemma map_of_map_assign: "map_of (map_assign k v m) k = Some v"
  by (induction m) auto

lemma map_of_map_assign_other: "k' \<noteq> k \<Longrightarrow> map_of (map_assign k v m) k' = map_of m k'"
  by (induction m) auto

lemma distinct_map_assign:
  "distinct (map fst m) \<Longrightarrow> k \<notin> fst ` set m \<Longrightarrow> distinct (map fst (map_assign k v m))"
proof (induction m)
  case Nil
  then show ?case by simp
next
  case (Cons e m)
  obtain k' v' where e: "e = (k', v')" by (cases e)
  from Cons.prems e have k: "k \<noteq> k'" "k \<notin> fst ` set m" and d: "distinct (map fst m)" "k' \<notin> fst ` set m"
    by auto
  from Cons.IH d k have IH: "distinct (map fst (map_assign k v m))" by simp
  show ?case
  proof (cases "k < k'")
    case True
    with e k d show ?thesis by simp
  next
    case False
    with e k d IH show ?thesis by (simp add: keys_map_assign)
  qed
qed

lemma sorted_map_assign:
  "sorted (map fst m) \<Longrightarrow> sorted (map fst (map_assign k v m))"
proof (induction m)
  case Nil
  then show ?case by simp
next
  case (Cons e m)
  obtain k' v' where e: "e = (k', v')" by (cases e)
  from Cons.prems e have s: "sorted (map fst m)" and le: "\<forall>x \<in> fst ` set m. k' \<le> x"
    by auto
  from Cons.IH s have IH: "sorted (map fst (map_assign k v m))" by simp
  show ?case
  proof (cases "k < k'")
    case True
    with e s le show ?thesis by auto
  next
    case False
    show ?thesis
    proof (cases "k = k'")
      case True
      with e s le show ?thesis by simp
    next
      case neq: False
      with False have "k' \<le> k" by simp
      with neq False e IH le show ?thesis by (simp add: keys_map_assign)
    qed
  qed
qed

lemma length_map_assign:
  "k \<notin> fst ` set m \<Longrightarrow> length (map_assign k v m) = Suc (length m)"
  by (induction m) auto

lemma LayerRegisterers_keys:
  assumes "distinct (map fst regs)" and "set (map fst regs) \<inter> fst ` set registry = {}"
    and "distinct (map fst registry)" and "sorted (map fst registry)"
  shows "\<exists>r. LayerRegisterers regs registry = Inr r
            \<and> fst ` set r = fst ` set registry \<union> set (map fst regs)
            \<and> distinct (map fst r) \<and> sorted (map fst r)
            \<and> length r = length registry + length regs"
  using assms
proof (induction regs arbitrary: registry)
  case Nil
  then show ?case by simp
next
  case (Cons reg regs)
  obtain ty creator where reg: "reg = (ty, creator)" by (cases reg)
  let ?r1 = "map_assign ty creator registry"
  from Cons.prems reg have fresh: "ty \<notin> fst ` set registry" by auto
  then have add: "LayerRegistry_AddCreator ty creator registry = (Inr (), ?r1)"
    by (simp add: LayerRegistry_AddCreator_def map_count_eq_0)
  have k1: "fst ` set ?r1 = insert ty (fst ` set registry)" by (rule keys_map_assign)
  from Cons.prems reg have "distinct (map fst regs)" "set (map fst regs) \<inter> fst ` set ?r1 = {}"
    unfolding k1 by auto
  moreover have "distinct (map fst ?r1)" "sorted (map fst ?r1)"
    using Cons.prems fresh by (simp_all add: distinct_map_assign sorted_map_assign)
  ultimately obtain r where r: "LayerRegisterers regs ?r1 = Inr r"
      "fst ` set r = fst ` set ?r1 \<union> set (map fst regs)"
      "distinct (map fst r)" "sorted (map fst r)" "length r = length ?r1 + length regs"
    using Cons.IH [of ?r1] by blast
  from r(1) add reg have "LayerRegisterers (reg # regs) registry = Inr r" by simp
  moreover from r(2) k1 reg have "fst ` set r = fst ` set registry \<union> set (map fst (reg # regs))"
    by auto
  moreover from r(5) fresh have "length r = length registry + length (reg # regs)"
    by (simp add: length_map_assign)
  ultimately show ?case using r(3,4) by blast
qed

lemma SolverRegisterers_eq: "SolverRegisterers regs registry = Inr r \<longleftrightarrow> LayerRegisterers regs registry = Inr r"
  by (induction regs arbitrary: registry)
     (auto simp: SolverRegistry_AddCreator_def LayerRegistry_AddCreator_def split: if_splits)

lemma REGISTER_CREATOR_fresh:
  assumes "ty \<notin> fst ` set (registry_float rs)" and "ty \<notin> fst ` set (registry_double rs)"
  shows "REGISTER_LAYER_CREATOR ty creator rs =
           Inr (rs\<lparr>registry_float := map_assign ty (creator Float) (registry_float rs),
                   registry_double := map_assign ty (creator Double) (registry_double rs)\<rparr>)"
    and "REGISTER_SOLVER_CREATOR ty creator rs =
           Inr (rs\<lparr>registry_float := map_assign ty (creator Float) (registry_float rs),
                   registry_double := map_assign ty (creator Double) (registry_double rs)\<rparr>)"
  using assms
  by (simp_all add: REGISTER_LAYER_CREATOR_def REGISTER_SOLVER_CREATOR_def
      LayerRegistry_AddCreator_def SolverRegistry_AddCreator_def map_count_eq_0)

subsection \<open>The claims about the registries\<close>

text \<open>
  Claim C3. When the type name is already a key of the registry, \<^verbatim>\<open>AddCreator\<close> of the layer
  registry and of the solver registry fails its check, and the registry at the abort is the
  registry before the call: the creator bound to the name and the list of registered names
  are the same.
\<close>

theorem AddCreator_duplicate_rejected:
  assumes "ty \<in> fst ` set registry"
  shows "LayerRegistry_AddCreator ty creator registry =
           (Inl (Fatal (''Layer type '' @ ty @ '' already registered.'')), registry)
       \<and> SolverRegistry_AddCreator ty creator registry =
           (Inl (Fatal (''Solver type '' @ ty @ '' already registered.'')), registry)
       \<and> map_of (snd (LayerRegistry_AddCreator ty creator registry)) ty = map_of registry ty
       \<and> map_of (snd (SolverRegistry_AddCreator ty creator registry)) ty = map_of registry ty
       \<and> LayerTypeList (snd (LayerRegistry_AddCreator ty creator registry)) = LayerTypeList registry
       \<and> SolverTypeList (snd (SolverRegistry_AddCreator ty creator registry)) = SolverTypeList registry"
proof -
  from assms have "map_count registry ty \<noteq> 0"
    by (simp add: map_count_eq_0)
  then show ?thesis
    by (simp add: LayerRegistry_AddCreator_def SolverRegistry_AddCreator_def)
qed

theorem AddCreator_duplicate_rejected_witness:
  "snd (LayerRegistry_AddCreator ''A'' (\<lambda>(p::unit) w. (0::nat, w::unit)) Registry_new) = [(''A'', \<lambda>p w. (0, w))] \<and>
   LayerRegistry_AddCreator ''A'' (\<lambda>p w. (1, w)) [(''A'', \<lambda>(p::unit) w. (0::nat, w::unit))]
     = (Inl (Fatal ''Layer type A already registered.''), [(''A'', \<lambda>p w. (0, w))]) \<and>
   SolverRegistry_AddCreator ''A'' (\<lambda>p w. (1, w)) [(''A'', \<lambda>(p::unit) w. (0::nat, w::unit))]
     = (Inl (Fatal ''Solver type A already registered.''), [(''A'', \<lambda>p w. (0, w))]) \<and>
   LayerTypeList [(''A'', \<lambda>(p::unit) w. (0::nat, w::unit))] = [''A'']"
  using AddCreator_duplicate_rejected [of "''A''" "[(''A'', \<lambda>(p::unit) w. (0::nat, w::unit))]" "\<lambda>p w. (1, w)"]
  by (simp add: LayerTypeList_def LayerRegistry_AddCreator_def Registry_new_def map_count_def)

text \<open>
  Claim C4. With a type identifier that is no key of the registry, \<^verbatim>\<open>CreateLayer\<close> and
  \<^verbatim>\<open>CreateSolver\<close> fail fatally and leave the process state as it was (no creator ran, no
  instance exists), and the message holds the registered names, joined by commas; each
  registered name occurs in it. With a registered identifier the result is the instance that
  one call of the registered creator returns, in the process state that this call leaves.
\<close>

theorem Create_unknown_fatal_known_invoked:
  "(type lparam \<notin> fst ` set lregistry \<longrightarrow>
      CreateLayer root_solver lregistry lparam info_log w =
        (Inl (Fatal (''Unknown layer type: '' @ type lparam @ '' (known types: '' @
                      join_names (map fst lregistry) @ '')'')),
         (if root_solver then info_log @ [''Creating layer '' @ name lparam] else info_log), w))
 \<and> (\<forall>creator. map_of lregistry (type lparam) = Some creator \<longrightarrow>
      CreateLayer root_solver lregistry lparam info_log w =
        (Inr (fst (creator lparam w)),
         (if root_solver then info_log @ [''Creating layer '' @ name lparam] else info_log),
         snd (creator lparam w)))
 \<and> (solver_type sparam \<notin> fst ` set sregistry \<longrightarrow>
      CreateSolver sregistry sparam w' =
        (Inl (Fatal (''Unknown solver type: '' @ solver_type sparam @ '' (known types: '' @
                      join_names (map fst sregistry) @ '')'')), w'))
 \<and> (\<forall>creator. map_of sregistry (solver_type sparam) = Some creator \<longrightarrow>
      CreateSolver sregistry sparam w' = (Inr (fst (creator sparam w')), snd (creator sparam w')))
 \<and> (\<forall>k \<in> fst ` set lregistry. sublist k (join_names (map fst lregistry)))
 \<and> (\<forall>k \<in> fst ` set sregistry. sublist k (join_names (map fst sregistry)))"
proof -
  have unknownL: "CreateLayer root_solver lregistry lparam info_log w =
        (Inl (Fatal (''Unknown layer type: '' @ type lparam @ '' (known types: '' @
                      join_names (map fst lregistry) @ '')'')),
         (if root_solver then info_log @ [''Creating layer '' @ name lparam] else info_log), w)"
    if "type lparam \<notin> fst ` set lregistry"
  proof -
    from that have "map_count lregistry (type lparam) = 0" by (simp add: map_count_eq_0)
    then show ?thesis
      by (simp add: CreateLayer_def LayerTypeListString_def LayerTypeList_keys
          TypeListString_loop_join)
  qed
  have knownL: "CreateLayer root_solver lregistry lparam info_log w =
        (Inr (fst (creator lparam w)),
         (if root_solver then info_log @ [''Creating layer '' @ name lparam] else info_log),
         snd (creator lparam w))"
    if "map_of lregistry (type lparam) = Some creator" for creator
    using that by (simp add: CreateLayer_def map_count_def split: prod.splits)
  have unknownS: "CreateSolver sregistry sparam w' =
        (Inl (Fatal (''Unknown solver type: '' @ solver_type sparam @ '' (known types: '' @
                      join_names (map fst sregistry) @ '')'')), w')"
    if "solver_type sparam \<notin> fst ` set sregistry"
  proof -
    from that have "map_count sregistry (solver_type sparam) = 0" by (simp add: map_count_eq_0)
    then show ?thesis
      by (simp add: CreateSolver_def SolverTypeListString_def SolverTypeList_keys
          TypeListString_loop_join)
  qed
  have knownS: "CreateSolver sregistry sparam w' =
        (Inr (fst (creator sparam w')), snd (creator sparam w'))"
    if "map_of sregistry (solver_type sparam) = Some creator" for creator
    using that by (simp add: CreateSolver_def map_count_def split: prod.splits)
  have subL: "\<forall>k \<in> fst ` set lregistry. sublist k (join_names (map fst lregistry))"
    using sublist_join_names [of _ "map fst lregistry"] by auto
  have subS: "\<forall>k \<in> fst ` set sregistry. sublist k (join_names (map fst sregistry))"
    using sublist_join_names [of _ "map fst sregistry"] by auto
  from unknownL knownL unknownS knownS subL subS show ?thesis by blast
qed

theorem Create_unknown_fatal_known_invoked_witness:
  "type \<lparr>name = ''in1'', type = ''Pool''\<rparr> \<notin> fst ` set [(''Input'', \<lambda>p w. (name p, w @ [name p]))]
 \<and> CreateLayer True [(''Input'', \<lambda>p w. (name p, w @ [name p]))] \<lparr>name = ''in1'', type = ''Pool''\<rparr> [] []
     = (Inl (Fatal ''Unknown layer type: Pool (known types: Input)''), [''Creating layer in1''], [])
 \<and> map_of [(''Input'', \<lambda>p w. (name p, w @ [name p]))] (type \<lparr>name = ''in1'', type = ''Input''\<rparr>)
     = Some (\<lambda>p w. (name p, w @ [name p]))
 \<and> CreateLayer True [(''Input'', \<lambda>p w. (name p, w @ [name p]))] \<lparr>name = ''in1'', type = ''Input''\<rparr> [] []
     = (Inr ''in1'', [''Creating layer in1''], [''in1''])
 \<and> CreateSolver [(''SGD'', \<lambda>p w. (solver_type p, w @ [solver_type p]))] \<lparr>solver_type = ''Adam''\<rparr> []
     = (Inl (Fatal ''Unknown solver type: Adam (known types: SGD)''), [])
 \<and> CreateSolver [(''SGD'', \<lambda>p w. (solver_type p, w @ [solver_type p]))] \<lparr>solver_type = ''SGD''\<rparr> []
     = (Inr ''SGD'', [''SGD''])
 \<and> sublist ''Input'' (join_names (map fst [(''Input'', \<lambda>p w. (name p, w @ [name p]))]))"
  using Create_unknown_fatal_known_invoked [of "\<lparr>name = ''in1'', type = ''Pool''\<rparr>"
      "[(''Input'', \<lambda>p w. (name p, w @ [name p]))]" True "[]" "[]"
      "\<lparr>solver_type = ''Adam''\<rparr>" "[(''SGD'', \<lambda>p w. (solver_type p, w @ [solver_type p]))]" "[]"]
    Create_unknown_fatal_known_invoked [of "\<lparr>name = ''in1'', type = ''Input''\<rparr>"
      "[(''Input'', \<lambda>p w. (name p, w @ [name p]))]" True "[]" "[]"
      "\<lparr>solver_type = ''SGD''\<rparr>" "[(''SGD'', \<lambda>p w. (solver_type p, w @ [solver_type p]))]" "[]"]
  by simp

text \<open>
  Claim C7. After registerers with pairwise distinct names have run on a new registry,
  \<^verbatim>\<open>LayerTypeList\<close> and \<^verbatim>\<open>SolverTypeList\<close> return the registered names in key order, each
  once and no other, and the diagnostic string is these names joined by commas.
\<close>

theorem TypeList_exactly_registered:
  assumes "distinct (map fst regs)"
  shows "(\<exists>registry. LayerRegisterers regs Registry_new = Inr registry
            \<and> LayerTypeList registry = sort (map fst regs)
            \<and> set (LayerTypeList registry) = set (map fst regs)
            \<and> distinct (LayerTypeList registry)
            \<and> length (LayerTypeList registry) = length regs
            \<and> LayerTypeListString registry = join_names (LayerTypeList registry))
       \<and> (\<exists>registry. SolverRegisterers regs Registry_new = Inr registry
            \<and> SolverTypeList registry = sort (map fst regs)
            \<and> set (SolverTypeList registry) = set (map fst regs)
            \<and> distinct (SolverTypeList registry)
            \<and> length (SolverTypeList registry) = length regs
            \<and> SolverTypeListString registry = join_names (SolverTypeList registry))"
proof -
  from assms obtain r where r: "LayerRegisterers regs [] = Inr r"
      "fst ` set r = set (map fst regs)" "distinct (map fst r)" "sorted (map fst r)"
      "length r = length regs"
    using LayerRegisterers_keys [of regs "[]"] by auto
  from r(2) have s: "set (map fst r) = set (map fst regs)" by simp
  have "sort (map fst regs) = map fst r"
  proof (rule sorted_distinct_set_unique)
    show "set (sort (map fst regs)) = set (map fst r)" using s by simp
  qed (use r assms in simp_all)
  then have keys: "map fst r = sort (map fst regs)" by simp
  have L: "LayerTypeList r = sort (map fst regs) \<and> set (LayerTypeList r) = set (map fst regs)
        \<and> distinct (LayerTypeList r) \<and> length (LayerTypeList r) = length regs
        \<and> LayerTypeListString r = join_names (LayerTypeList r)"
    using keys r(3,5) s
    by (simp add: LayerTypeList_keys LayerTypeListString_def TypeListString_loop_join)
  have S: "SolverTypeList r = sort (map fst regs) \<and> set (SolverTypeList r) = set (map fst regs)
        \<and> distinct (SolverTypeList r) \<and> length (SolverTypeList r) = length regs
        \<and> SolverTypeListString r = join_names (SolverTypeList r)"
    using keys r(3,5) s
    by (simp add: SolverTypeList_keys SolverTypeListString_def TypeListString_loop_join)
  from r(1) have "SolverRegisterers regs [] = Inr r" by (simp add: SolverRegisterers_eq)
  with r(1) L S show ?thesis
    unfolding Registry_new_def by blast
qed

theorem TypeList_exactly_registered_witness:
  "distinct (map fst [(''Input'', \<lambda>(p::unit) (w::unit). (0::nat, w)), (''Data'', \<lambda>p w. (1, w)),
                      (''Conv'', \<lambda>p w. (2, w))])
   \<and> LayerRegisterers [(''Input'', \<lambda>(p::unit) (w::unit). (0::nat, w)), (''Data'', \<lambda>p w. (1, w)),
                         (''Conv'', \<lambda>p w. (2, w))] Registry_new
       = Inr [(''Conv'', \<lambda>p w. (2, w)), (''Data'', \<lambda>p w. (1, w)), (''Input'', \<lambda>p w. (0, w))]
   \<and> LayerTypeList [(''Conv'', \<lambda>(p::unit) (w::unit). (2::nat, w)), (''Data'', \<lambda>p w. (1, w)),
                      (''Input'', \<lambda>p w. (0, w))] = [''Conv'', ''Data'', ''Input'']
   \<and> LayerTypeListString [(''Conv'', \<lambda>(p::unit) (w::unit). (2::nat, w)), (''Data'', \<lambda>p w. (1, w)),
                      (''Input'', \<lambda>p w. (0, w))] = ''Conv, Data, Input''"
  using TypeList_exactly_registered [of "[(''Input'', \<lambda>(p::unit) (w::unit). (0::nat, w)),
      (''Data'', \<lambda>p w. (1, w)), (''Conv'', \<lambda>p w. (2, w))]"]
  by (simp add: Registry_new_def LayerRegistry_AddCreator_def map_count_def LayerTypeList_def
      LayerTypeListString_def)

text \<open>
  Claim C8. For a name \<open>ty\<close> not yet registered, \<^verbatim>\<open>REGISTER_LAYER_CLASS(ty)\<close> and
  \<^verbatim>\<open>REGISTER_SOLVER_CLASS(ty)\<close> add the key \<open>ty\<close> to the float and to the double registry,
  bound to a creator that makes a new object of class \<open>ty\<close>\<^verbatim>\<open>Layer\<close> (or \<open>ty\<close>\<^verbatim>\<open>Solver\<close>) of
  that element type from the parameter it is given. The string \<^verbatim>\<open>InputLayer::type()\<close>
  returns is the class name \<^verbatim>\<open>InputLayer\<close> without its suffix.
\<close>

theorem REGISTER_CLASS_bare_name:
  assumes "ty \<notin> fst ` set (registry_float rs)" and "ty \<notin> fst ` set (registry_double rs)"
  shows "(\<exists>rs'. REGISTER_LAYER_CLASS ty rs = Inr rs'
            \<and> fst ` set (registry_float rs') = insert ty (fst ` set (registry_float rs))
            \<and> fst ` set (registry_double rs') = insert ty (fst ` set (registry_double rs))
            \<and> (\<exists>cf cd. map_of (registry_float rs') ty = Some cf
                 \<and> map_of (registry_double rs') ty = Some cd
                 \<and> (\<forall>param heap.
                      cf param heap = (\<lparr>class_name = ty @ ''Layer'', elem_type = Float,
                                         ctor_param = param\<rparr>,
                                       heap @ [\<lparr>class_name = ty @ ''Layer'', elem_type = Float,
                                                 ctor_param = param\<rparr>])
                    \<and> cd param heap = (\<lparr>class_name = ty @ ''Layer'', elem_type = Double,
                                         ctor_param = param\<rparr>,
                                       heap @ [\<lparr>class_name = ty @ ''Layer'', elem_type = Double,
                                                 ctor_param = param\<rparr>]))))
       \<and> (\<exists>rs'. REGISTER_SOLVER_CLASS ty rs = Inr rs'
            \<and> fst ` set (registry_float rs') = insert ty (fst ` set (registry_float rs))
            \<and> fst ` set (registry_double rs') = insert ty (fst ` set (registry_double rs))
            \<and> (\<exists>cf cd. map_of (registry_float rs') ty = Some cf
                 \<and> map_of (registry_double rs') ty = Some cd
                 \<and> (\<forall>param heap.
                      cf param heap = (\<lparr>class_name = ty @ ''Solver'', elem_type = Float,
                                         ctor_param = param\<rparr>,
                                       heap @ [\<lparr>class_name = ty @ ''Solver'', elem_type = Float,
                                                 ctor_param = param\<rparr>])
                    \<and> cd param heap = (\<lparr>class_name = ty @ ''Solver'', elem_type = Double,
                                         ctor_param = param\<rparr>,
                                       heap @ [\<lparr>class_name = ty @ ''Solver'', elem_type = Double,
                                                 ctor_param = param\<rparr>]))))
       \<and> InputLayer_type @ ''Layer'' = ''InputLayer''"
proof -
  have L: "REGISTER_LAYER_CLASS ty rs =
      Inr (rs\<lparr>registry_float := map_assign ty (Creator_Layer ty Float) (registry_float rs),
              registry_double := map_assign ty (Creator_Layer ty Double) (registry_double rs)\<rparr>)"
    unfolding REGISTER_LAYER_CLASS_def using assms by (rule REGISTER_CREATOR_fresh(1))
  have S: "REGISTER_SOLVER_CLASS ty rs =
      Inr (rs\<lparr>registry_float := map_assign ty (Creator_Solver ty Float) (registry_float rs),
              registry_double := map_assign ty (Creator_Solver ty Double) (registry_double rs)\<rparr>)"
    unfolding REGISTER_SOLVER_CLASS_def using assms by (rule REGISTER_CREATOR_fresh(2))
  show ?thesis
    unfolding L S
    by (simp add: keys_map_assign map_of_map_assign Creator_Layer_def Creator_Solver_def
        new_object_def InputLayer_type_def Let_def)
qed

theorem REGISTER_CLASS_bare_name_witness:
  "InputLayer_type \<notin> fst ` set (registry_float \<lparr>registry_float = Registry_new, registry_double = Registry_new\<rparr>)
 \<and> (\<exists>rs'. REGISTER_LAYER_CLASS InputLayer_type
            \<lparr>registry_float = Registry_new, registry_double = Registry_new\<rparr> = Inr rs'
        \<and> LayerTypeList (registry_float rs') = [''Input'']
        \<and> LayerTypeList (registry_double rs') = [''Input'']
        \<and> (\<exists>cf. map_of (registry_float rs') ''Input'' = Some cf
             \<and> fst (cf (0::nat) []) = \<lparr>class_name = ''InputLayer'', elem_type = Float, ctor_param = 0\<rparr>))"
  using REGISTER_CLASS_bare_name [of InputLayer_type
      "\<lparr>registry_float = Registry_new, registry_double = Registry_new\<rparr> :: (nat, nat heap, nat object) registries"]
  by (simp add: Registry_new_def InputLayer_type_def REGISTER_LAYER_CLASS_def
      REGISTER_LAYER_CREATOR_def LayerRegistry_AddCreator_def map_count_def LayerTypeList_def
      Creator_Layer_def new_object_def Let_def)

section \<open>Properties of InputLayer\<close>

text \<open>
  Claim C10. \<^verbatim>\<open>Forward_cpu\<close>, \<^verbatim>\<open>Backward_cpu\<close> and \<^verbatim>\<open>Reshape\<close> of \<^verbatim>\<open>InputLayer\<close> return the bottom
  blobs, the top blobs and the layer as they were given; \<^verbatim>\<open>ExactNumBottomBlobs()\<close> is 0 and
  \<^verbatim>\<open>MinTopBlobs()\<close> is 1.
\<close>

theorem InputLayer_noops:
  "InputLayer_Forward_cpu bottom_blobs top_blobs this = (bottom_blobs, top_blobs, this)
 \<and> InputLayer_Backward_cpu top_blobs propagate_down bottom_blobs this = (top_blobs, bottom_blobs, this)
 \<and> InputLayer_Reshape bottom_blobs top_blobs this = (bottom_blobs, top_blobs, this)
 \<and> InputLayer_ExactNumBottomBlobs = 0
 \<and> InputLayer_MinTopBlobs = 1"
  by (simp add: InputLayer_Forward_cpu_def InputLayer_Backward_cpu_def InputLayer_Reshape_def
      InputLayer_ExactNumBottomBlobs_def InputLayer_MinTopBlobs_def)

section \<open>Properties of the prefetching data layer\<close>

subsection \<open>The steps of the two threads\<close>

lemma InternalThreadEntry_cases [consumes 1, case_names entry entry_failed head_stop head_go
    pop pop_interrupted loaded fill_interrupted fill_threw publish publish_gpu sync_failed
    exit exit_failed]:
  assumes "InternalThreadEntry env s = Some s'"
  obtains
    "worker s = W_Entry" "s' = s\<lparr>worker := W_LoopHead\<rparr>"
  | "worker s = W_Entry" "use_gpu env" "\<not> cuda_ok env (outside s)"
      "s' = s\<lparr>worker := W_Aborted CudaCheckFailed\<rparr>"
  | "worker s = W_LoopHead" "interruption_requested s" "s' = s\<lparr>worker := W_LoopExit\<rparr>"
  | "worker s = W_LoopHead" "\<not> interruption_requested s" "s' = s\<lparr>worker := W_Pop\<rparr>"
  | b rest where "worker s = W_Pop" "prefetch_free s = b # rest"
      "s' = s\<lparr>prefetch_free := rest, worker := W_Filling b\<rparr>"
  | "worker s = W_Pop" "prefetch_free s = []" "interruption_requested s"
      "s' = s\<lparr>worker := W_LoopExit\<rparr>"
  | b batch' x where "worker s = W_Filling b"
      "load_batch env (outside s) (prefetch s ! b) = Loaded batch' x"
      "s' = s\<lparr>prefetch := (prefetch s)[b := batch'], outside := x, worker := W_Loaded b\<rparr>"
  | b batch' x where "worker s = W_Filling b"
      "load_batch env (outside s) (prefetch s ! b) = Thrown thread_interrupted batch' x"
      "s' = s\<lparr>prefetch := (prefetch s)[b := batch'], outside := x, worker := W_LoopExit\<rparr>"
  | b e batch' x where "worker s = W_Filling b"
      "load_batch env (outside s) (prefetch s ! b) = Thrown (other_exception e) batch' x"
      "s' = s\<lparr>prefetch := (prefetch s)[b := batch'], outside := x,
               worker := W_Aborted (Uncaught e)\<rparr>"
  | b where "worker s = W_Loaded b" "\<not> use_gpu env"
      "s' = s\<lparr>prefetch_full := prefetch_full s @ [b], worker := W_LoopHead\<rparr>"
  | b where "worker s = W_Loaded b" "use_gpu env" "cuda_ok env (outside s)"
      "s' = s\<lparr>prefetch := (prefetch s)[b := cudaStreamSynchronize
                          (gpu_pushes (output_labels s) (prefetch s ! b))],
               prefetch_full := prefetch_full s @ [b], worker := W_LoopHead\<rparr>"
  | b where "worker s = W_Loaded b" "use_gpu env" "\<not> cuda_ok env (outside s)"
      "s' = s\<lparr>prefetch := (prefetch s)[b := gpu_pushes (output_labels s) (prefetch s ! b)],
               worker := W_Aborted CudaCheckFailed\<rparr>"
  | "worker s = W_LoopExit" "s' = s\<lparr>worker := W_Returned\<rparr>"
  | "worker s = W_LoopExit" "use_gpu env" "\<not> cuda_ok env (outside s)"
      "s' = s\<lparr>worker := W_Aborted CudaCheckFailed\<rparr>"
proof (cases "worker s")
  case W_NotStarted
  with assms show ?thesis by (simp add: InternalThreadEntry_def)
next
  case W_Entry
  with assms that(1,2) show ?thesis
    by (cases "use_gpu env \<and> \<not> cuda_ok env (outside s)") (auto simp: InternalThreadEntry_def)
next
  case W_LoopHead
  with assms that(3,4) show ?thesis
    by (cases "interruption_requested s") (auto simp: InternalThreadEntry_def must_stop_def)
next
  case W_Pop
  with assms that(5,6) show ?thesis
    by (cases "prefetch_free s")
       (auto simp: InternalThreadEntry_def queue_pop_def split: if_splits)
next
  case (W_Filling b)
  show ?thesis
  proof (cases "load_batch env (outside s) (prefetch s ! b)")
    case (Loaded batch' x)
    with assms W_Filling that(7) show ?thesis by (auto simp: InternalThreadEntry_def)
  next
    case (Thrown t batch' x)
    with assms W_Filling that(8,9) show ?thesis
      by (cases t) (auto simp: InternalThreadEntry_def)
  qed
next
  case (W_Loaded b)
  show ?thesis
  proof (cases "use_gpu env")
    case False
    with assms W_Loaded that(10) show ?thesis
      by (auto simp: InternalThreadEntry_def queue_push_def)
  next
    case True
    with assms W_Loaded that(11,12) show ?thesis
      by (cases "cuda_ok env (outside s)")
         (auto simp: InternalThreadEntry_def queue_push_def Let_def)
  qed
next
  case W_LoopExit
  with assms that(13,14) show ?thesis
    by (cases "use_gpu env \<and> \<not> cuda_ok env (outside s)") (auto simp: InternalThreadEntry_def)
next
  case W_Returned
  with assms show ?thesis by (simp add: InternalThreadEntry_def)
next
  case (W_Aborted a)
  with assms show ?thesis by (simp add: InternalThreadEntry_def)
qed

lemma Forward_cpu_cases [consumes 1, case_names call_first call take take_undefined]:
  assumes "Forward_cpu s = Some s'"
  obtains
    "consumer s = C_Idle" "prefetch_current s = None" "s' = s\<lparr>consumer := C_Pop\<rparr>"
  | c where "consumer s = C_Idle" "prefetch_current s = Some c"
      "s' = s\<lparr>prefetch_free := prefetch_free s @ [c], consumer := C_Pop\<rparr>"
  | b rest top_blobs where "consumer s = C_Pop" "prefetch_full s = b # rest"
      "expose (output_labels s) (prefetch s) b (top_vec s) = Some top_blobs"
      "s' = s\<lparr>prefetch_full := rest, prefetch_current := Some b, top_vec := top_blobs,
               consumer := C_Idle,
               observed := observed s @ [cpu_data (data (prefetch s ! b))]\<rparr>"
  | b rest where "consumer s = C_Pop" "prefetch_full s = b # rest"
      "expose (output_labels s) (prefetch s) b (top_vec s) = None"
      "s' = s\<lparr>prefetch_full := rest, prefetch_current := Some b, consumer := C_Undefined\<rparr>"
proof (cases "consumer s")
  case C_NotSetUp
  with assms show ?thesis by (simp add: Forward_cpu_def)
next
  case C_Idle
  with assms that(1,2) show ?thesis
    by (cases "prefetch_current s") (auto simp: Forward_cpu_def queue_push_def)
next
  case C_Pop
  show ?thesis
  proof (cases "prefetch_full s")
    case Nil
    with assms C_Pop show ?thesis by (simp add: Forward_cpu_def queue_pop_def)
  next
    case (Cons b rest)
    with assms C_Pop that(3,4) show ?thesis
      by (cases "expose (output_labels s) (prefetch s) b (top_vec s)")
         (auto simp: Forward_cpu_def queue_pop_def)
  qed
next
  case C_Undefined
  with assms show ?thesis by (simp add: Forward_cpu_def)
qed

lemma sys_step_cases [consumes 1, case_names by_worker by_setup by_forward by_stop]:
  assumes "sys_step env a s = Some s'"
  obtains "InternalThreadEntry env s = Some s'"
  | "consumer s = C_NotSetUp" "s' = LayerSetUp env s"
  | "consumer s \<noteq> C_NotSetUp" "Forward_cpu s = Some s'"
  | "s' = s\<lparr>interruption_requested := True\<rparr>"
proof (cases a)
  case Worker
  with assms have "InternalThreadEntry env s = Some s'" by (simp add: sys_step_def)
  then show ?thesis by (rule that(1))
next
  case Consumer
  show ?thesis
  proof (cases "consumer s = C_NotSetUp")
    case True
    with assms Consumer have "s' = LayerSetUp env s" by (simp add: sys_step_def)
    with True show ?thesis by (rule that(2))
  next
    case False
    with assms Consumer have "Forward_cpu s = Some s'" by (simp add: sys_step_def)
    with False show ?thesis by (rule that(3))
  qed
next
  case Stop
  with assms have "s' = s\<lparr>interruption_requested := True\<rparr>"
    by (simp add: sys_step_def StopInternalThread_def)
  then show ?thesis by (rule that(4))
qed

lemma worker_frame:
  assumes "InternalThreadEntry env s = Some s'"
  shows "consumer s' = consumer s \<and> observed s' = observed s \<and> top_vec s' = top_vec s
       \<and> output_labels s' = output_labels s \<and> prefetch_current s' = prefetch_current s
       \<and> interruption_requested s' = interruption_requested s \<and> worker s \<noteq> W_NotStarted"
  using assms by (cases rule: InternalThreadEntry_cases) simp_all

lemma Forward_cpu_frame:
  assumes "Forward_cpu s = Some s'"
  shows "worker s' = worker s \<and> suffix (prefetch_full s') (prefetch_full s)
       \<and> consumer s' \<noteq> C_NotSetUp"
  using assms by (cases rule: Forward_cpu_cases) (auto simp: suffix_def)

lemma constructor_loop_eq: "constructor_loop is free = free @ is"
  by (induction "is" arbitrary: free) (simp_all add: queue_push_def)

lemma length_map_index [simp]: "length (map_index f xs) = length xs"
  by (simp add: map_index_def)

lemma LayerSetUp_fields [simp]:
  "prefetch_free (LayerSetUp env s) = prefetch_free s"
  "prefetch_full (LayerSetUp env s) = prefetch_full s"
  "prefetch_current (LayerSetUp env s) = prefetch_current s"
  "interruption_requested (LayerSetUp env s) = interruption_requested s"
  "observed (LayerSetUp env s) = observed s"
  "worker (LayerSetUp env s) = W_Entry"
  "consumer (LayerSetUp env s) = C_Idle"
  "output_labels (LayerSetUp env s) = (length (top_vec s) \<noteq> 1)"
  "length (prefetch (LayerSetUp env s)) = length (prefetch s)"
  "length (top_vec (LayerSetUp env s)) = length (top_vec s)"
  by (simp_all add: LayerSetUp_def BaseDataLayer_LayerSetUp_def Let_def split: prod.splits)

lemma outside_LayerSetUp_stop:
  "outside (LayerSetUp env (s\<lparr>interruption_requested := True\<rparr>)) = outside (LayerSetUp env s)"
  by (simp add: LayerSetUp_def BaseDataLayer_LayerSetUp_def Let_def split: prod.splits)

lemma expose_length: "expose labels batches b top_blobs = Some t \<Longrightarrow> length t = length top_blobs"
  by (auto simp: expose_def Let_def split: if_splits)

lemma expose_Some:
  assumes "top_blobs \<noteq> []" and "labels \<longrightarrow> 2 \<le> length top_blobs"
  shows "\<exists>t. expose labels batches b top_blobs = Some t \<and> length t = length top_blobs"
proof -
  from assms(1) have "\<not> length top_blobs < 1" by (cases top_blobs) simp_all
  moreover from assms(2) have "labels \<Longrightarrow> \<not> length top_blobs < 2" by simp
  ultimately show ?thesis by (simp add: expose_def Let_def)
qed

lemma expose_tops:
  assumes "expose labels batches b top_blobs = Some t"
  shows "t ! 0 = \<lparr>top_shape = shape (data (batches ! b)), top_cpu_data = DataOf b\<rparr>
       \<and> (labels \<longrightarrow> t ! 1 = \<lparr>top_shape = shape (label (batches ! b)), top_cpu_data = LabelOf b\<rparr>
              \<and> (\<forall>i\<ge>2. t ! i = top_blobs ! i))
       \<and> (\<not> labels \<longrightarrow> (\<forall>i\<ge>1. t ! i = top_blobs ! i))"
proof (cases labels)
  case True
  with assms have len: "2 \<le> length top_blobs"
    and t: "t = top_blobs[0 := \<lparr>top_shape = shape (data (batches ! b)), top_cpu_data = DataOf b\<rparr>,
                          1 := \<lparr>top_shape = shape (label (batches ! b)), top_cpu_data = LabelOf b\<rparr>]"
    by (auto simp: expose_def Let_def split: if_splits)
  from len have "0 < length top_blobs" "1 < length top_blobs" by linarith+
  with t True show ?thesis by (simp add: nth_list_update)
next
  case False
  with assms have len: "top_blobs \<noteq> []"
    and t: "t = top_blobs[0 := \<lparr>top_shape = shape (data (batches ! b)), top_cpu_data = DataOf b\<rparr>]"
    by (auto simp: expose_def Let_def split: if_splits)
  from len have "0 < length top_blobs" by simp
  with t False show ?thesis by (simp add: nth_list_update)
qed

lemma expose_top0:
  assumes "expose labels batches b top_blobs = Some t"
  shows "t \<noteq> [] \<and> top_cpu_data (t ! 0) = DataOf b"
  using expose_tops [OF assms] expose_length [OF assms] assms
  by (auto simp: expose_def split: if_splits)

lemma run_invariant:
  assumes "run env sched s0 = Some s" and "P s0"
    and "\<And>a s s'. P s \<Longrightarrow> sys_step env a s = Some s' \<Longrightarrow> P s'"
  shows "P s"
  using assms(1,2)
proof (induction sched arbitrary: s0)
  case Nil
  then show ?case by simp
next
  case (Cons a sched)
  then obtain s1 where s1: "sys_step env a s0 = Some s1" "run env sched s1 = Some s"
    by (auto split: option.splits)
  from assms(3) [OF Cons.prems(2) s1(1)] have "P s1" .
  with Cons.IH s1(2) show ?case by blast
qed

lemma run_append:
  "run env (sched1 @ sched2) s = (case run env sched1 s of None \<Rightarrow> None | Some s' \<Rightarrow> run env sched2 s')"
  by (induction sched1 arbitrary: s) (auto split: option.splits)

lemmas pipeline_eval = BasePrefetchingDataLayer_def sys_step_def LayerSetUp_def
  BaseDataLayer_LayerSetUp_def InternalThreadEntry_def Forward_cpu_def StopInternalThread_def
  queue_pop_def queue_push_def must_stop_def use_gpu_def seq_fill_def expose_def map_index_def
  upt_rec sequence_env_def empty_Batch_def one_top_def next_round_def interrupted_env_def
  gpu_pushes_def cudaStreamSynchronize_def async_gpu_push_def stream_synchronized_def Let_def

lemma before_setup_step:
  assumes "before_setup s" and "sys_step env a s = Some s'"
  shows "before_setup s'"
  using assms(2)
proof (cases rule: sys_step_cases)
  case by_worker
  then show ?thesis
    by (cases rule: InternalThreadEntry_cases)
       (use assms(1) in \<open>auto simp: before_setup_def\<close>)
next
  case by_setup
  then show ?thesis by (simp add: before_setup_def)
next
  case by_forward
  from by_forward(2) show ?thesis
    by (cases rule: Forward_cpu_cases)
       (use assms(1) by_forward(1) in \<open>auto simp: before_setup_def\<close>)
next
  case by_stop
  with assms(1) show ?thesis by (simp add: before_setup_def)
qed

subsection \<open>Ownership of the buffers\<close>

lemma reliable_load:
  "reliable env \<Longrightarrow> load_batch env x batch \<noteq> Thrown t batch' x'"
  unfolding reliable_def by (metis load_result.distinct(1))

lemma reliable_cuda: "reliable env \<Longrightarrow> use_gpu env \<Longrightarrow> cuda_ok env x"
  unfolding reliable_def by blast

lemma places_worker:
  assumes "InternalThreadEntry env s = Some s'"
  shows "mset (places s') \<subseteq># mset (places s)
       \<and> (reliable env \<longrightarrow> mset (places s') = mset (places s))
       \<and> length (prefetch s') = length (prefetch s)"
  using assms
  by (cases rule: InternalThreadEntry_cases)
     (auto simp: places_def held_by_worker_def held_by_consumer_def reliable_load
        dest: reliable_cuda)

lemma places_Forward_cpu:
  assumes "Forward_cpu s = Some s'"
  shows "mset (places s') = mset (places s) \<and> length (prefetch s') = length (prefetch s)"
  using assms
  by (cases rule: Forward_cpu_cases)
     (auto simp: places_def held_by_worker_def held_by_consumer_def)

lemma places_LayerSetUp:
  assumes "consumer s = C_NotSetUp" and "before_setup s"
  shows "places (LayerSetUp env s) = places s"
  using assms by (simp add: places_def held_by_worker_def held_by_consumer_def before_setup_def)

lemma places_stop: "places (s\<lparr>interruption_requested := True\<rparr>) = places s"
  by (simp add: places_def held_by_worker_def held_by_consumer_def)

lemma owned_step:
  assumes "owned env N s" and "sys_step env a s = Some s'"
  shows "owned env N s'"
proof -
  from assms have bs: "before_setup s'"
    by (auto simp: owned_def intro: before_setup_step)
  from assms(2) have "mset (places s') \<subseteq># mset (places s)
       \<and> (reliable env \<longrightarrow> mset (places s') = mset (places s))
       \<and> length (prefetch s') = length (prefetch s)"
  proof (cases rule: sys_step_cases)
    case by_worker
    then show ?thesis by (rule places_worker)
  next
    case by_setup
    with assms(1) show ?thesis by (simp add: places_LayerSetUp owned_def)
  next
    case by_forward
    with places_Forward_cpu [of s s'] show ?thesis by simp
  next
    case by_stop
    then show ?thesis by (simp add: places_stop)
  qed
  with assms(1) bs show ?thesis
    by (auto simp: owned_def)
qed

lemma owned_constructor: "owned env N (BasePrefetchingDataLayer env N indeterminate top_blobs x)"
  by (simp add: owned_def places_def held_by_worker_def held_by_consumer_def before_setup_def
      BasePrefetchingDataLayer_def constructor_loop_eq)

lemma owned_run:
  "run env sched (BasePrefetchingDataLayer env N indeterminate top_blobs x) = Some s \<Longrightarrow> owned env N s"
  by (erule run_invariant [where P = "owned env N"]) (auto intro: owned_constructor owned_step)

lemma owned_distinct:
  assumes "owned env N s"
  shows "distinct (places s)" and "set (places s) \<subseteq> {..<N}" and "length (places s) \<le> N"
proof -
  from assms have sub: "mset (places s) \<subseteq># mset [0..<N]" by (simp add: owned_def)
  have "count (mset [0..<N]) a \<le> 1" for a
    using distinct_count_atmost_1 [of "[0..<N]"] by simp
  then have le1: "count (mset (places s)) a \<le> 1" for a
    using mset_subset_eq_count [OF sub, of a] le_trans by blast
  have "count (mset (places s)) a = (if a \<in> set (places s) then 1 else 0)" for a
  proof (cases "a \<in> set (places s)")
    case True
    then have "count (mset (places s)) a \<noteq> 0"
      using count_mset_0_iff [of "places s" a] by simp
    with le1 [of a] have "count (mset (places s)) a = 1" by linarith
    with True show ?thesis by simp
  next
    case False
    then show ?thesis by (simp add: count_mset_0_iff)
  qed
  then show "distinct (places s)"
    unfolding distinct_count_atmost_1 by blast
  from set_mset_mono [OF sub] show "set (places s) \<subseteq> {..<N}" by auto
  from size_mset_mono [OF sub] show "length (places s) \<le> N" by simp
qed

lemma owned_worker_holds:
  assumes "owned env N s" and "worker s = W_Filling b \<or> worker s = W_Loaded b"
  shows "b < length (prefetch s)" and "b \<notin> set (prefetch_full s)" and "b \<notin> set (prefetch_free s)"
proof -
  from assms(2) have hw: "held_by_worker s = [b]" by (auto simp: held_by_worker_def)
  from owned_distinct(1,2) [OF assms(1)] hw
  have "b < N \<and> b \<notin> set (prefetch_full s) \<and> b \<notin> set (prefetch_free s)"
    by (auto simp: places_def)
  with assms(1) show "b < length (prefetch s)" and "b \<notin> set (prefetch_full s)"
    and "b \<notin> set (prefetch_free s)"
    by (simp_all add: owned_def)
qed

lemma owned_consumer_holds:
  assumes "owned env N s" and "consumer s = C_Idle" and "prefetch_current s = Some c"
  shows "worker s \<noteq> W_Filling c" and "worker s \<noteq> W_Loaded c"
proof -
  from assms(2,3) have hc: "held_by_consumer s = [c]" by (simp add: held_by_consumer_def)
  from owned_distinct(1) [OF assms(1)] hc have "c \<notin> set (held_by_worker s)"
    by (auto simp: places_def)
  then show "worker s \<noteq> W_Filling c" and "worker s \<noteq> W_Loaded c"
    by (auto simp: held_by_worker_def)
qed

lemma places_worker_exact:
  assumes "InternalThreadEntry env s = Some s'"
  shows "(\<forall>b. \<not> drops env s b) \<and> mset (places s') = mset (places s)
           \<and> (worker_ended s \<longrightarrow> worker_ended s')
       \<or> (\<exists>b. drops env s b \<and> \<not> worker_ended s \<and> worker_ended s'
              \<and> mset (places s) = add_mset b (mset (places s')))"
  using assms
  by (cases rule: InternalThreadEntry_cases)
     (simp_all add: places_def held_by_worker_def held_by_consumer_def drops_def worker_ended_def)

lemma Forward_cpu_worker: "Forward_cpu s = Some s' \<Longrightarrow> worker s' = worker s"
  by (erule Forward_cpu_cases) simp_all

lemma places_step_exact:
  assumes "before_setup s" and "sys_step env a s = Some s'"
  shows "mset (places s') = mset (places s) \<and> (worker_ended s \<longrightarrow> worker_ended s')
       \<or> (\<exists>b. a = Worker \<and> drops env s b \<and> \<not> worker_ended s \<and> worker_ended s'
              \<and> mset (places s) = add_mset b (mset (places s')))"
proof (cases a)
  case Worker
  with assms(2) have "InternalThreadEntry env s = Some s'" by (simp add: sys_step_def)
  from places_worker_exact [OF this] Worker show ?thesis by blast
next
  case Consumer
  show ?thesis
  proof (cases "consumer s = C_NotSetUp")
    case True
    with assms(2) Consumer have s': "s' = LayerSetUp env s" by (simp add: sys_step_def)
    from True assms(1) have "worker s = W_NotStarted" by (simp add: before_setup_def)
    then have "\<not> worker_ended s" by (simp add: worker_ended_def)
    with s' True assms(1) show ?thesis by (simp add: places_LayerSetUp)
  next
    case False
    with assms(2) Consumer have f: "Forward_cpu s = Some s'" by (simp add: sys_step_def)
    from places_Forward_cpu [OF f] Forward_cpu_worker [OF f] show ?thesis
      by (simp add: worker_ended_def)
  qed
next
  case Stop
  with assms(2) have "s' = s\<lparr>interruption_requested := True\<rparr>"
    by (simp add: sys_step_def StopInternalThread_def)
  then show ?thesis by (simp add: places_stop worker_ended_def)
qed

lemma circulating_step:
  assumes "circulating N s" and "sys_step env a s = Some s'"
  shows "circulating N s'"
proof -
  from assms(1) have bs: "before_setup s" by (simp add: circulating_def)
  from bs assms(2) have bs': "before_setup s'" by (rule before_setup_step)
  from places_step_exact [OF bs assms(2)] show ?thesis
  proof
    assume "mset (places s') = mset (places s) \<and> (worker_ended s \<longrightarrow> worker_ended s')"
    with assms(1) bs' show ?thesis by (auto simp: circulating_def)
  next
    assume "\<exists>b. a = Worker \<and> drops env s b \<and> \<not> worker_ended s \<and> worker_ended s'
              \<and> mset (places s) = add_mset b (mset (places s'))"
    then obtain b where b: "\<not> worker_ended s" "worker_ended s'"
      "mset (places s) = add_mset b (mset (places s'))" by blast
    from assms(1) b(1) have "mset (places s) = mset [0..<N]" by (simp add: circulating_def)
    with b(3) have "add_mset b (mset (places s')) = mset [0..<N]" by simp
    with b(2) bs' show ?thesis by (auto simp: circulating_def)
  qed
qed

lemma circulating_run:
  assumes "run env sched (BasePrefetchingDataLayer env N indeterminate top_blobs x) = Some s"
  shows "circulating N s"
proof -
  have "circulating N (BasePrefetchingDataLayer env N indeterminate top_blobs x)"
    by (simp add: circulating_def places_def held_by_worker_def held_by_consumer_def
        before_setup_def BasePrefetchingDataLayer_def constructor_loop_eq)
  with assms show ?thesis by (rule run_invariant) (rule circulating_step)
qed

lemma circulating_count:
  assumes "circulating N s"
  shows "N \<le> length (places s) + 1"
    and "\<not> worker_ended s \<Longrightarrow> mset (places s) = mset [0..<N]"
proof -
  from assms have "mset (places s) = mset [0..<N]
        \<or> (\<exists>b. add_mset b (mset (places s)) = mset [0..<N])"
    by (auto simp: circulating_def)
  then show "N \<le> length (places s) + 1"
  proof
    assume "mset (places s) = mset [0..<N]"
    from mset_eq_length [OF this] show ?thesis by simp
  next
    assume "\<exists>b. add_mset b (mset (places s)) = mset [0..<N]"
    then obtain b where "mset (b # places s) = mset [0..<N]" by auto
    from mset_eq_length [OF this] show ?thesis by simp
  qed
  show "mset (places s) = mset [0..<N]" if "\<not> worker_ended s"
    using assms that by (auto simp: circulating_def)
qed

subsection \<open>The claim about the buffers\<close>

text \<open>
  Claim C2, as stated, fails: with two buffers, a \<^verbatim>\<open>load_batch\<close> that is interrupted at
  teardown ends the prefetch thread while it holds buffer 0, which is then in neither queue,
  not with the worker and not with the consumer. One buffer is left in the four places.
\<close>

theorem buffer_count_counterexample:
  "map_option buffer_count
     (run interrupted_env [Consumer, Worker, Worker, Worker, Stop, Worker]
        (BasePrefetchingDataLayer interrupted_env 2 False one_top 0)) = Some 1"
  by (simp add: pipeline_eval buffer_count_def held_by_worker_def held_by_consumer_def)

text \<open>
  Claim C2, amended. The constructor makes \<open>N\<close> batches, all in the free queue, none
  current. In every state the layer reaches, the buffers in the free queue, in the full
  queue, with the worker (between its pop and its push) and with the consumer (the current
  one, outside the window of \<^verbatim>\<open>Forward_cpu\<close> between handing it back and the return of the
  pop) are pairwise different buffers of the pool, and there are \<open>N\<close> or \<open>N - 1\<close> of them.
  They are all \<open>N\<close> as long as the prefetch thread has not left its loop, and always when
  \<^verbatim>\<open>load_batch\<close> never throws and no CUDA call fails. Every step of either thread keeps
  the buffers in the four places, except the step in which \<^verbatim>\<open>load_batch\<close> throws or the check
  of the stream synchronization fails: that step ends the loop and leaves the buffer the
  thread was holding in none of the four places, so that \<open>N - 1\<close> remain.
\<close>

theorem buffers_conserved:
  assumes "run env sched (BasePrefetchingDataLayer env N indeterminate top_blobs x) = Some s"
  shows "length (prefetch (BasePrefetchingDataLayer env N indeterminate top_blobs x)) = N
       \<and> prefetch_free (BasePrefetchingDataLayer env N indeterminate top_blobs x) = [0..<N]
       \<and> prefetch_full (BasePrefetchingDataLayer env N indeterminate top_blobs x) = []
       \<and> prefetch_current (BasePrefetchingDataLayer env N indeterminate top_blobs x) = None
       \<and> length (prefetch s) = N
       \<and> distinct (places s) \<and> set (places s) \<subseteq> {..<N}
       \<and> buffer_count s \<le> N \<and> N \<le> buffer_count s + 1
       \<and> (\<not> worker_ended s \<longrightarrow> set (places s) = {..<N} \<and> buffer_count s = N)
       \<and> (reliable env \<longrightarrow> set (places s) = {..<N} \<and> buffer_count s = N)
       \<and> (\<forall>a s'. sys_step env a s = Some s' \<and> \<not> (a = Worker \<and> (\<exists>b. drops env s b)) \<longrightarrow>
             mset (places s') = mset (places s) \<and> buffer_count s' = buffer_count s)
       \<and> (\<forall>s'. InternalThreadEntry env s = Some s' \<and> (\<exists>b. drops env s b) \<longrightarrow>
             (\<exists>b. drops env s b \<and> worker_ended s' \<and> b \<notin> set (places s')
                \<and> set (places s') = {..<N} - {b} \<and> buffer_count s' + 1 = N))
       \<and> (\<forall>b t batch' x' s'.
             worker s = W_Filling b
             \<and> load_batch env (outside s) (prefetch s ! b) = Thrown t batch' x'
             \<and> InternalThreadEntry env s = Some s' \<longrightarrow>
               worker_ended s' \<and> b \<notin> set (places s')
             \<and> set (places s') = {..<N} - {b} \<and> buffer_count s' + 1 = N)"
proof -
  from assms have o: "owned env N s" by (rule owned_run)
  from assms have c: "circulating N s" by (rule circulating_run)
  then have bs: "before_setup s" by (simp add: circulating_def)
  have bc: "buffer_count t = length (places t)" for t :: "('a, 'b, 'c) layer"
    by (simp add: buffer_count_def places_def)
  have init: "length (prefetch (BasePrefetchingDataLayer env N indeterminate top_blobs x)) = N
       \<and> prefetch_free (BasePrefetchingDataLayer env N indeterminate top_blobs x) = [0..<N]
       \<and> prefetch_full (BasePrefetchingDataLayer env N indeterminate top_blobs x) = []
       \<and> prefetch_current (BasePrefetchingDataLayer env N indeterminate top_blobs x) = None"
    by (simp add: BasePrefetchingDataLayer_def constructor_loop_eq)
  have full: "set (places s) = {..<N} \<and> buffer_count s = N" if eq: "mset (places s) = mset [0..<N]"
  proof -
    from mset_eq_setD [OF eq] have "set (places s) = {..<N}" by auto
    moreover from mset_eq_length [OF eq] have "length (places s) = N" by simp
    ultimately show ?thesis by (simp add: bc)
  qed
  have live: "set (places s) = {..<N} \<and> buffer_count s = N" if "\<not> worker_ended s"
    using full circulating_count(2) [OF c that] .
  have rel: "set (places s) = {..<N} \<and> buffer_count s = N" if "reliable env"
    using full o that by (simp add: owned_def)
  have keep: "mset (places s') = mset (places s) \<and> buffer_count s' = buffer_count s"
    if "sys_step env a s = Some s' \<and> \<not> (a = Worker \<and> (\<exists>b. drops env s b))" for a s'
  proof -
    from that places_step_exact [OF bs, of env a s']
    have eq: "mset (places s') = mset (places s)" by blast
    from mset_eq_length [OF eq] eq show ?thesis by (simp add: bc)
  qed
  have lose: "worker_ended s' \<and> b \<notin> set (places s')
      \<and> set (places s') = {..<N} - {b} \<and> buffer_count s' + 1 = N"
    if st: "InternalThreadEntry env s = Some s'" and d: "drops env s b" for s' b
  proof -
    from places_worker_exact [OF st] d obtain b' where
      b': "drops env s b'" "\<not> worker_ended s" "worker_ended s'"
        "mset (places s) = add_mset b' (mset (places s'))"
      by blast
    from d b'(1) have "b' = b" by (auto simp: drops_def)
    with b' have e: "mset (places s) = mset (b # places s')" by simp
    from live [OF b'(2)] have l: "set (places s) = {..<N}" "buffer_count s = N" by simp_all
    from owned_distinct(1) [OF o] e have dist: "distinct (b # places s')"
      using mset_eq_imp_distinct_iff by blast
    then have nb: "b \<notin> set (places s')" by simp
    from mset_eq_setD [OF e] l(1) have "insert b (set (places s')) = {..<N}" by simp
    with nb have "set (places s') = {..<N} - {b}" by auto
    moreover from mset_eq_length [OF e] l(2) have "buffer_count s' + 1 = N" by (simp add: bc)
    ultimately show ?thesis using b'(3) nb by simp
  qed
  have lose_any: "\<exists>b. drops env s b \<and> worker_ended s' \<and> b \<notin> set (places s')
                \<and> set (places s') = {..<N} - {b} \<and> buffer_count s' + 1 = N"
    if "InternalThreadEntry env s = Some s' \<and> (\<exists>b. drops env s b)" for s'
    using that lose by blast
  have thrown: "worker_ended s' \<and> b \<notin> set (places s')
             \<and> set (places s') = {..<N} - {b} \<and> buffer_count s' + 1 = N"
    if "worker s = W_Filling b
             \<and> load_batch env (outside s) (prefetch s ! b) = Thrown t batch' x'
             \<and> InternalThreadEntry env s = Some s'" for b t batch' x' s'
  proof -
    from that have "drops env s b" by (simp add: drops_def)
    with that lose show ?thesis by blast
  qed
  from o have len: "length (prefetch s) = N" by (simp add: owned_def)
  from circulating_count(1) [OF c] have low: "N \<le> buffer_count s + 1" by (simp add: bc)
  from owned_distinct [OF o] have up: "distinct (places s)" "set (places s) \<subseteq> {..<N}"
    "buffer_count s \<le> N" by (simp_all add: bc)
  show ?thesis
    using init len up low live rel keep lose_any thrown by blast
qed

theorem buffers_conserved_witness:
  "map_option (\<lambda>s. (prefetch_free s, prefetch_full s, worker s, prefetch_current s, consumer s,
                      worker_ended s, buffer_count s))
     (run (sequence_env CPU) ([Consumer, Worker] @ next_round @ next_round @ [Consumer, Worker, Worker])
        (BasePrefetchingDataLayer (sequence_env CPU) 2 False one_top 0))
     = Some ([1], [], W_Filling 0, Some 1, C_Pop, False, 2)
   \<and> reliable (sequence_env CPU)
   \<and> map_option (\<lambda>s. (worker s, load_batch interrupted_env (outside s) (prefetch s ! 0)))
     (run interrupted_env [Consumer, Worker, Worker, Worker, Stop]
        (BasePrefetchingDataLayer interrupted_env 2 False one_top 0))
     = Some (W_Filling 0, Thrown thread_interrupted empty_Batch 0)
   \<and> map_option (\<lambda>s. (worker s, places s, buffer_count s))
     (run interrupted_env ([Consumer, Worker, Worker, Worker, Stop] @ [Worker])
        (BasePrefetchingDataLayer interrupted_env 2 False one_top 0))
     = Some (W_LoopExit, [1], 1)"
proof -
  obtain s where r: "run (sequence_env CPU)
        ([Consumer, Worker] @ next_round @ next_round @ [Consumer, Worker, Worker])
        (BasePrefetchingDataLayer (sequence_env CPU) 2 False one_top 0) = Some s"
    and f: "prefetch_free s = [1]" "prefetch_full s = []" "worker s = W_Filling 0"
      "prefetch_current s = Some 1" "consumer s = C_Pop"
    by (simp add: pipeline_eval)
  have rel: "reliable (sequence_env CPU)"
    by (simp add: reliable_def sequence_env_def seq_fill_def use_gpu_def)
  from f(3) have ne: "\<not> worker_ended s" by (simp add: worker_ended_def)
  from buffers_conserved [OF r] ne have n: "buffer_count s = 2" by simp
  let ?t0 = "BasePrefetchingDataLayer interrupted_env 2 False one_top 0"
  obtain u where q: "run interrupted_env [Consumer, Worker, Worker, Worker, Stop] ?t0 = Some u"
    and g: "worker u = W_Filling 0"
      "load_batch interrupted_env (outside u) (prefetch u ! 0) = Thrown thread_interrupted empty_Batch 0"
    by (simp add: pipeline_eval)
  obtain u' where q': "run interrupted_env ([Consumer, Worker, Worker, Worker, Stop] @ [Worker]) ?t0
      = Some u'"
    and g': "worker u' = W_LoopExit" "places u' = [1]"
    by (simp add: pipeline_eval places_def held_by_worker_def held_by_consumer_def)
  from q q' have "run interrupted_env [Worker] u = Some u'"
    by (simp only: run_append option.case)
  then have st: "InternalThreadEntry interrupted_env u = Some u'"
    by (simp add: sys_step_def split: option.splits)
  from buffers_conserved [OF q] g st have "buffer_count u' + 1 = 2" by blast
  then have n': "buffer_count u' = 1" by simp
  show ?thesis
    unfolding r q q' using f ne n rel g g' n' by simp
qed

subsection \<open>The order of the payloads\<close>

lemma upt_snoc_eq: "xs @ [y] = [c..<c + Suc (length xs)] \<Longrightarrow> xs = [c..<c + length xs]"
  by simp

lemma upt_append_eq:
  "xs @ ys = [c..<c + length (xs @ ys)] \<Longrightarrow> xs = [c..<c + length xs]"
proof (induction ys rule: rev_induct)
  case Nil
  then show ?case by simp
next
  case (snoc y ys)
  from snoc.prems have "(xs @ ys) @ [y] = [c..<c + Suc (length (xs @ ys))]" by simp
  then have "xs @ ys = [c..<c + length (xs @ ys)]" by (rule upt_snoc_eq)
  then show ?case by (rule snoc.IH)
qed

lemma payload_transfer [simp]:
  "cpu_data (data (cudaStreamSynchronize (gpu_pushes l batch))) = cpu_data (data batch)"
  "cpu_data (data (gpu_pushes l batch)) = cpu_data (data batch)"
  by (simp_all add: cudaStreamSynchronize_def gpu_pushes_def async_gpu_push_def
      stream_synchronized_def Let_def split: device_copy.splits)

lemma payload_update_same:
  "cpu_data (data X) = cpu_data (data (batches ! b)) \<Longrightarrow>
   cpu_data (data (batches[b := X] ! b')) = cpu_data (data (batches ! b'))"
  by (cases "b' = b"; cases "b < length batches") (simp_all add: list_update_beyond not_less)

lemma fifo_cong:
  assumes "fifo env c0 s" and "consumer s \<noteq> C_NotSetUp"
    and "consumer s' = consumer s \<or> consumer s = C_Idle \<and> consumer s' = C_Pop"
    and "observed s' = observed s" and "ready s' = ready s"
    and "worker_live s' \<Longrightarrow> worker_live s \<and> outside s' = outside s"
  shows "fifo env c0 s'"
proof -
  from assms(2,3) have n: "consumer s' \<noteq> C_NotSetUp" by auto
  from assms(2,3) have io: "consumer s' = C_Idle \<or> consumer s' = C_Pop \<Longrightarrow>
    consumer s = C_Idle \<or> consumer s = C_Pop" by auto
  from assms(1) have obs: "observed s = [c0..<c0 + length (observed s)]"
    by (simp add: fifo_def)
  show ?thesis
    unfolding fifo_def
  proof (intro conjI impI)
    assume "consumer s' = C_NotSetUp"
    with n show "outside (LayerSetUp env s') = c0" by simp
  next
    assume "consumer s' = C_Idle \<or> consumer s' = C_Pop"
    from io [OF this] assms(1)
    have "observed s @ ready s = [c0..<c0 + length (observed s @ ready s)]"
      by (simp add: fifo_def)
    with assms(4,5) show "observed s' @ ready s' = [c0..<c0 + length (observed s' @ ready s')]"
      by simp
  next
    assume a: "consumer s' = C_Idle \<or> consumer s' = C_Pop" and l: "worker_live s'"
    from assms(6) [OF l] have "worker_live s" "outside s' = outside s" by simp_all
    with io [OF a] assms(1) have "outside s' = c0 + length (observed s @ ready s)"
      by (simp add: fifo_def)
    with assms(4,5) show "outside s' = c0 + length (observed s' @ ready s')" by simp
  next
    from obs assms(4) show "observed s' = [c0..<c0 + length (observed s')]" by simp
  qed
qed

lemma fifo_worker:
  assumes "fifo env c0 s" and "owned env N s" and "before_setup s"
    and "load_batch env = seq_fill" and "InternalThreadEntry env s = Some s'"
  shows "fifo env c0 s'"
proof -
  from worker_frame [OF assms(5)] assms(3) have c: "consumer s \<noteq> C_NotSetUp"
    and c': "consumer s' = consumer s \<or> consumer s = C_Idle \<and> consumer s' = C_Pop"
    and o': "observed s' = observed s"
    by (auto simp: before_setup_def)
  from assms(5) show ?thesis
proof (cases rule: InternalThreadEntry_cases)
  case (loaded b batch' x)
  from assms(2) loaded(1) have b: "b < length (prefetch s)" "b \<notin> set (prefetch_full s)"
    by (auto dest: owned_worker_holds)
  from loaded(2) assms(4) have x: "x = Suc (outside s)" "cpu_data (data batch') = outside s"
    by (auto simp: seq_fill_def)
  have "payload (prefetch s') b' = payload (prefetch s) b'" if "b' \<in> set (prefetch_full s)" for b'
  proof -
    from that b have "b' \<noteq> b" by auto
    then show ?thesis using loaded(3) by (simp add: payload_def)
  qed
  then have same: "map (payload (prefetch s')) (prefetch_full s)
      = map (payload (prefetch s)) (prefetch_full s)"
    by simp
  have new: "payload (prefetch s') b = outside s"
    using b x loaded(3) by (simp add: payload_def)
  have ready: "ready s' = ready s @ [outside s]"
    using same new loaded(1,3) by (simp add: ready_def loaded_by_worker_def)
  from assms(1) loaded(1) have live: "consumer s = C_Idle \<or> consumer s = C_Pop \<Longrightarrow>
      observed s @ ready s = [c0..<c0 + length (observed s @ ready s)]
      \<and> outside s = c0 + length (observed s @ ready s)"
    by (simp add: fifo_def worker_live_def)
  from assms(1) have obs: "observed s = [c0..<c0 + length (observed s)]" by (simp add: fifo_def)
  show ?thesis
    unfolding fifo_def
  proof (intro conjI impI)
    assume "consumer s' = C_NotSetUp"
    with c loaded(3) show "outside (LayerSetUp env s') = c0" by simp
  next
    assume "consumer s' = C_Idle \<or> consumer s' = C_Pop"
    with loaded(3) have "consumer s = C_Idle \<or> consumer s = C_Pop" by simp
    from live [OF this] have l: "observed s @ ready s = [c0..<c0 + length (observed s @ ready s)]"
      "outside s = c0 + length (observed s @ ready s)" by simp_all
    have "observed s' @ ready s' = (observed s @ ready s) @ [outside s]"
      using ready loaded(3) by simp
    also have "\<dots> = [c0..<c0 + length (observed s @ ready s)] @ [c0 + length (observed s @ ready s)]"
      using l by simp
    also have "\<dots> = [c0..<c0 + Suc (length (observed s @ ready s))]" by simp
    finally show "observed s' @ ready s' = [c0..<c0 + length (observed s' @ ready s')]"
      using ready loaded(3) by simp
  next
    assume "consumer s' = C_Idle \<or> consumer s' = C_Pop" and "worker_live s'"
    with loaded(3) have "consumer s = C_Idle \<or> consumer s = C_Pop" by simp
    from live [OF this] x ready loaded(3)
    show "outside s' = c0 + length (observed s' @ ready s')" by simp
  next
    from obs loaded(3) show "observed s' = [c0..<c0 + length (observed s')]" by simp
  qed
next
  case (fill_interrupted b batch' x)
  with assms(4) show ?thesis by (simp add: seq_fill_def)
next
  case (fill_threw b e batch' x)
  with assms(4) show ?thesis by (simp add: seq_fill_def)
next
  case (publish b)
  show ?thesis
    by (rule fifo_cong [OF assms(1) c c' o'])
       (simp_all add: publish ready_def loaded_by_worker_def worker_live_def)
next
  case (publish_gpu b)
  have "payload (prefetch s') b' = payload (prefetch s) b'" for b'
    using publish_gpu(4) by (simp add: payload_def payload_update_same)
  then have "payload (prefetch s') = payload (prefetch s)" by (rule ext)
  then show ?thesis
    by (intro fifo_cong [OF assms(1) c c' o'])
       (simp_all add: publish_gpu(1,4) ready_def loaded_by_worker_def worker_live_def)
next
  case (sync_failed b)
  have "payload (prefetch s') b' = payload (prefetch s) b'" for b'
    using sync_failed(4) by (simp add: payload_def payload_update_same)
  then have p: "payload (prefetch s') = payload (prefetch s)" by (rule ext)
  have "prefetch_full s' = prefetch_full s" "loaded_by_worker s' = []" "loaded_by_worker s = [b]"
    using sync_failed(1,4) by (simp_all add: loaded_by_worker_def)
  with p have r: "ready s = ready s' @ [payload (prefetch s) b]"
    by (simp add: ready_def)
  from assms(1) have obs: "observed s = [c0..<c0 + length (observed s)]" by (simp add: fifo_def)
  have "observed s' @ ready s' = [c0..<c0 + length (observed s' @ ready s')]"
    if "consumer s = C_Idle \<or> consumer s = C_Pop"
  proof -
    from assms(1) that have "observed s @ ready s = [c0..<c0 + length (observed s @ ready s)]"
      by (simp add: fifo_def)
    with r have "(observed s @ ready s') @ [payload (prefetch s) b]
        = [c0..<c0 + Suc (length (observed s @ ready s'))]" by simp
    from upt_snoc_eq [OF this] sync_failed(4) show ?thesis by simp
  qed
  with obs c sync_failed(4) show ?thesis
    by (simp add: fifo_def worker_live_def)
qed (rule fifo_cong [OF assms(1) c c' o'];
     simp add: ready_def loaded_by_worker_def worker_live_def)+
qed

lemma fifo_Forward_cpu:
  assumes "fifo env c0 s" and "consumer s \<noteq> C_NotSetUp" and "Forward_cpu s = Some s'"
  shows "fifo env c0 s'"
  using assms(3)
proof (cases rule: Forward_cpu_cases)
  case call_first
  show ?thesis
    by (rule fifo_cong [OF assms(1,2)])
       (simp_all add: call_first ready_def loaded_by_worker_def worker_live_def)
next
  case (call c)
  show ?thesis
    by (rule fifo_cong [OF assms(1,2)])
       (simp_all add: call ready_def loaded_by_worker_def worker_live_def)
next
  case (take b rest top_blobs)
  have r: "ready s = payload (prefetch s) b # ready s'"
    using take by (simp add: ready_def loaded_by_worker_def)
  from assms(1) take(1) have inv: "observed s @ ready s = [c0..<c0 + length (observed s @ ready s)]"
      "worker_live s \<longrightarrow> outside s = c0 + length (observed s @ ready s)"
    by (simp_all add: fifo_def)
  have o: "observed s' = observed s @ [payload (prefetch s) b]"
    using take by (simp add: payload_def)
  from o r have eq: "observed s' @ ready s' = observed s @ ready s" by simp
  have live: "worker_live s' = worker_live s" "outside s' = outside s" "consumer s' = C_Idle"
    using take by (simp_all add: worker_live_def)
  from inv(1) eq have all: "observed s' @ ready s' = [c0..<c0 + length (observed s' @ ready s')]"
    by simp
  from upt_append_eq [OF all] have "observed s' = [c0..<c0 + length (observed s')]" .
  with all inv(2) eq live show ?thesis
    unfolding fifo_def by simp
next
  case (take_undefined b rest)
  from assms(1) have "observed s = [c0..<c0 + length (observed s)]" by (simp add: fifo_def)
  with take_undefined show ?thesis by (simp add: fifo_def)
qed

lemma fifo_step:
  assumes "fifo env c0 s \<and> owned env N s" and "load_batch env = seq_fill"
    and "sys_step env a s = Some s'"
  shows "fifo env c0 s' \<and> owned env N s'"
proof -
  from assms(1) have f: "fifo env c0 s" and o: "owned env N s" and b: "before_setup s"
    by (simp_all add: owned_def)
  from assms(3) have "fifo env c0 s'"
  proof (cases rule: sys_step_cases)
    case by_worker
    with f o b assms(2) show ?thesis by (rule fifo_worker)
  next
    case by_setup
    with f b show ?thesis
      by (simp add: fifo_def before_setup_def ready_def loaded_by_worker_def worker_live_def)
  next
    case by_forward
    with f show ?thesis by (rule fifo_Forward_cpu)
  next
    case by_stop
    show ?thesis
    proof (cases "consumer s = C_NotSetUp")
      case True
      with f by_stop show ?thesis
        by (simp add: fifo_def outside_LayerSetUp_stop)
    next
      case False
      show ?thesis
        by (rule fifo_cong [OF f False])
           (simp_all add: by_stop ready_def loaded_by_worker_def worker_live_def)
    qed
  qed
  moreover from o assms(3) have "owned env N s'" by (rule owned_step)
  ultimately show ?thesis ..
qed

lemma fifo_run:
  assumes "load_batch env = seq_fill"
    and "run env sched (BasePrefetchingDataLayer env N indeterminate top_blobs x) = Some s"
  shows "fifo env (outside (LayerSetUp env (BasePrefetchingDataLayer env N indeterminate top_blobs x))) s"
proof -
  let ?s0 = "BasePrefetchingDataLayer env N indeterminate top_blobs x"
  let ?c0 = "outside (LayerSetUp env ?s0)"
  have "fifo env ?c0 ?s0 \<and> owned env N ?s0"
    by (simp add: owned_constructor) (simp add: fifo_def BasePrefetchingDataLayer_def)
  with assms(2) have "fifo env ?c0 s \<and> owned env N s"
    by (rule run_invariant) (rule fifo_step [OF _ assms(1)])
  then show ?thesis ..
qed

lemma current_view_cong:
  assumes "current_view s" and "consumer s' = C_Idle \<Longrightarrow> consumer s = C_Idle"
    and "prefetch_current s' = prefetch_current s" and "observed s' = observed s"
    and "top_vec s' = top_vec s"
    and "\<And>b. consumer s = C_Idle \<Longrightarrow> prefetch_current s = Some b \<Longrightarrow>
           payload (prefetch s') b = payload (prefetch s) b"
  shows "current_view s'"
  using assms unfolding current_view_def by metis

lemma current_view_worker:
  assumes "current_view s" and "owned env N s" and "InternalThreadEntry env s = Some s'"
  shows "current_view s'"
proof -
  from worker_frame [OF assms(3)] have fr: "consumer s' = consumer s"
    "prefetch_current s' = prefetch_current s" "observed s' = observed s" "top_vec s' = top_vec s"
    by simp_all
  have "payload (prefetch s') c = payload (prefetch s) c"
    if "consumer s = C_Idle" and "prefetch_current s = Some c" for c
    using assms(3)
  proof (cases rule: InternalThreadEntry_cases)
    case (loaded b batch' x)
    with owned_consumer_holds(1) [OF assms(2) that] have "c \<noteq> b" by auto
    with loaded(3) show ?thesis by (simp add: payload_def)
  next
    case (fill_interrupted b batch' x)
    with owned_consumer_holds(1) [OF assms(2) that] have "c \<noteq> b" by auto
    with fill_interrupted(3) show ?thesis by (simp add: payload_def)
  next
    case (fill_threw b e batch' x)
    with owned_consumer_holds(1) [OF assms(2) that] have "c \<noteq> b" by auto
    with fill_threw(3) show ?thesis by (simp add: payload_def)
  next
    case (publish_gpu b)
    then show ?thesis by (simp add: payload_def payload_update_same)
  next
    case (sync_failed b)
    then show ?thesis by (simp add: payload_def payload_update_same)
  qed simp_all
  with assms(1) fr show ?thesis
    by (intro current_view_cong [of s s']) simp_all
qed

lemma current_view_step:
  assumes "current_view s \<and> owned env N s" and "sys_step env a s = Some s'"
  shows "current_view s' \<and> owned env N s'"
proof -
  from assms(1) have v: "current_view s" and o: "owned env N s" and bs: "before_setup s"
    by (simp_all add: owned_def)
  from assms(2) have "current_view s'"
  proof (cases rule: sys_step_cases)
    case by_worker
    with v o show ?thesis by (rule current_view_worker)
  next
    case by_setup
    with bs show ?thesis by (simp add: current_view_def before_setup_def)
  next
    case by_forward
    from by_forward(2) show ?thesis
    proof (cases rule: Forward_cpu_cases)
      case (take b rest t)
      from expose_top0 [OF take(3)] take(4) show ?thesis
        by (simp add: current_view_def payload_def)
    qed (simp_all add: current_view_def)
  next
    case by_stop
    with v show ?thesis by (simp add: current_view_def)
  qed
  moreover from o assms(2) have "owned env N s'" by (rule owned_step)
  ultimately show ?thesis ..
qed

lemma current_view_run:
  assumes "run env sched (BasePrefetchingDataLayer env N indeterminate top_blobs x) = Some s"
  shows "current_view s"
proof -
  let ?s0 = "BasePrefetchingDataLayer env N indeterminate top_blobs x"
  have "current_view ?s0 \<and> owned env N ?s0"
    by (simp add: owned_constructor) (simp add: current_view_def BasePrefetchingDataLayer_def)
  with assms have "current_view s \<and> owned env N s"
    by (rule run_invariant) (rule current_view_step)
  then show ?thesis ..
qed

subsection \<open>Progress\<close>

lemma next_round_runs:
  assumes "between_rounds s" and "reliable env"
  shows "\<exists>s'. run env next_round s = Some s' \<and> between_rounds s'
             \<and> length (observed s') = Suc (length (observed s))"
proof -
  from assms(1) have s: "consumer s = C_Idle" "worker s = W_LoopHead" "\<not> interruption_requested s"
    "prefetch_full s = []" "prefetch_current s \<noteq> None \<or> prefetch_free s \<noteq> []"
    "top_vec s \<noteq> []" "output_labels s \<longrightarrow> 2 \<le> length (top_vec s)"
    by (simp_all add: between_rounds_def)
  define free1 where "free1 = (case prefetch_current s of Some c \<Rightarrow> prefetch_free s @ [c]
                                | None \<Rightarrow> prefetch_free s)"
  define s1 where "s1 = s\<lparr>prefetch_free := free1, consumer := C_Pop\<rparr>"
  have 1: "sys_step env Consumer s = Some s1"
    using s(1) by (cases "prefetch_current s")
      (simp_all add: sys_step_def Forward_cpu_def queue_push_def s1_def free1_def)
  from s(5) obtain b rest where free1: "free1 = b # rest"
    by (cases "prefetch_current s"; cases "prefetch_free s") (auto simp: free1_def)
  define s2 where "s2 = s1\<lparr>worker := W_Pop\<rparr>"
  have 2: "sys_step env Worker s1 = Some s2"
    using s(2,3) by (simp add: sys_step_def InternalThreadEntry_def must_stop_def s1_def s2_def)
  define s3 where "s3 = s2\<lparr>prefetch_free := rest, worker := W_Filling b\<rparr>"
  have 3: "sys_step env Worker s2 = Some s3"
    using free1 by (simp add: sys_step_def InternalThreadEntry_def queue_pop_def s1_def s2_def s3_def)
  from assms(2) obtain batch' x' where
    l: "load_batch env (outside s3) (prefetch s3 ! b) = Loaded batch' x'"
    unfolding reliable_def by blast
  define s4 where "s4 = s3\<lparr>prefetch := (prefetch s3)[b := batch'], outside := x',
                             worker := W_Loaded b\<rparr>"
  have 4: "sys_step env Worker s3 = Some s4"
    using l by (simp add: sys_step_def InternalThreadEntry_def s3_def s4_def)
  define pool5 where "pool5 = (if use_gpu env
      then (prefetch s4)[b := cudaStreamSynchronize (gpu_pushes (output_labels s4) (prefetch s4 ! b))]
      else prefetch s4)"
  define s5 where "s5 = s4\<lparr>prefetch := pool5, prefetch_full := [b], worker := W_LoopHead\<rparr>"
  have 5: "sys_step env Worker s4 = Some s5"
    using assms(2) s(4)
    by (auto simp: sys_step_def InternalThreadEntry_def queue_push_def Let_def pool5_def
        s1_def s2_def s3_def s4_def s5_def dest: reliable_cuda)
  have top5: "top_vec s5 = top_vec s" "output_labels s5 = output_labels s"
    by (simp_all add: s1_def s2_def s3_def s4_def s5_def)
  with s(6,7) expose_Some [of "top_vec s" "output_labels s" "prefetch s5" b] obtain top_blobs where
    e: "expose (output_labels s5) (prefetch s5) b (top_vec s5) = Some top_blobs"
      and len: "length top_blobs = length (top_vec s)"
    by auto
  define s6 where "s6 = s5\<lparr>prefetch_full := [], prefetch_current := Some b, top_vec := top_blobs,
      consumer := C_Idle, observed := observed s5 @ [cpu_data (data (prefetch s5 ! b))]\<rparr>"
  have 6: "sys_step env Consumer s5 = Some s6"
    using e by (simp add: sys_step_def Forward_cpu_def queue_pop_def s1_def s2_def s3_def s4_def
        s5_def s6_def)
  from 1 2 3 4 5 6 have "run env next_round s = Some s6"
    by (simp add: next_round_def)
  moreover have "between_rounds s6"
    using s len by (auto simp: between_rounds_def s1_def s2_def s3_def s4_def s5_def s6_def)
  moreover have "length (observed s6) = Suc (length (observed s))"
    by (simp add: s1_def s2_def s3_def s4_def s5_def s6_def)
  ultimately show ?thesis by blast
qed

lemma concat_replicate_commute: "concat (replicate M r) @ r = r @ concat (replicate M r)"
  by (induction M) simp_all

lemma rounds_run:
  assumes "between_rounds s" and "reliable env"
  shows "\<exists>s'. run env (concat (replicate M next_round)) s = Some s' \<and> between_rounds s'
             \<and> length (observed s') = length (observed s) + M"
proof (induction M)
  case 0
  with assms(1) show ?case by simp
next
  case (Suc M)
  then obtain s1 where s1: "run env (concat (replicate M next_round)) s = Some s1"
      "between_rounds s1" "length (observed s1) = length (observed s) + M"
    by blast
  from next_round_runs [OF s1(2) assms(2)] obtain s2 where
    s2: "run env next_round s1 = Some s2" "between_rounds s2"
      "length (observed s2) = Suc (length (observed s1))"
    by blast
  have "concat (replicate (Suc M) next_round) = concat (replicate M next_round) @ next_round"
    by (simp add: concat_replicate_commute)
  with s1(1) s2(1) have "run env (concat (replicate (Suc M) next_round)) s = Some s2"
    by (simp add: run_append)
  with s2(2,3) s1(3) show ?case by auto
qed

lemma seq_fill_reliable:
  assumes "load_batch env = seq_fill" and "use_gpu env \<longrightarrow> (\<forall>x. cuda_ok env x)"
  shows "reliable env"
  using assms by (simp add: reliable_def seq_fill_def)

lemma start_runs:
  assumes "0 < N" and "top_blobs \<noteq> []" and "use_gpu env \<longrightarrow> (\<forall>x. cuda_ok env x)"
  shows "\<exists>s. run env [Consumer, Worker] (BasePrefetchingDataLayer env N indeterminate top_blobs x) = Some s
            \<and> between_rounds s \<and> observed s = []"
proof -
  let ?s0 = "BasePrefetchingDataLayer env N indeterminate top_blobs x"
  have s0: "consumer ?s0 = C_NotSetUp" "top_vec ?s0 = top_blobs" "prefetch_free ?s0 = [0..<N]"
    "prefetch_full ?s0 = []" "observed ?s0 = []" "\<not> interruption_requested ?s0"
    by (simp_all add: BasePrefetchingDataLayer_def constructor_loop_eq)
  define s1 where "s1 = LayerSetUp env ?s0"
  have 1: "sys_step env Consumer ?s0 = Some s1"
    using s0(1) by (simp add: sys_step_def s1_def)
  define s2 where "s2 = s1\<lparr>worker := W_LoopHead\<rparr>"
  have 2: "sys_step env Worker s1 = Some s2"
    using assms(3) by (auto simp: sys_step_def InternalThreadEntry_def s1_def s2_def)
  from assms(2) have "0 < length top_blobs" by simp
  then have "length top_blobs \<noteq> 1 \<longrightarrow> 2 \<le> length top_blobs"
    by linarith
  moreover have len: "length (top_vec s2) = length top_blobs"
    using s0(2) by (simp add: s1_def s2_def)
  moreover from len assms(2) have "top_vec s2 \<noteq> []" by auto
  moreover have "output_labels s2 = (length top_blobs \<noteq> 1)"
    using s0(2) by (simp add: s1_def s2_def)
  moreover have "consumer s2 = C_Idle" "worker s2 = W_LoopHead" "\<not> interruption_requested s2"
    "prefetch_full s2 = []" "prefetch_free s2 = [0..<N]"
    using s0 by (simp_all add: s1_def s2_def)
  ultimately have "between_rounds s2"
    using assms(1) by (simp add: between_rounds_def)
  moreover have "observed s2 = []" using s0 by (simp add: s1_def s2_def)
  moreover from 1 2 have "run env [Consumer, Worker] ?s0 = Some s2" by simp
  ultimately show ?thesis by blast
qed

subsection \<open>The claim about the order of the batches\<close>

text \<open>
  Claim C1. With a \<^verbatim>\<open>load_batch\<close> that writes the next number of a counter into the batch,
  the payloads seen at the returns of \<^verbatim>\<open>Forward_cpu\<close> are, in every state the layer reaches,
  the consecutive numbers from the counter's value at setup: increasing, without repeats
  and without gaps. The payloads published and not yet seen continue the sequence in queue
  order, and between two calls \<^verbatim>\<open>top[0]\<close> refers to the current batch, which still holds the
  payload seen last. For every depth \<open>N > 0\<close> and every \<open>M\<close> there is a run with \<open>M\<close> returns.
\<close>

theorem consumer_observes_sequence:
  assumes "load_batch env = seq_fill"
    and "s0 = BasePrefetchingDataLayer env N indeterminate top_blobs x"
    and "c0 = outside (LayerSetUp env s0)"
  shows "(run env sched s0 = Some s \<longrightarrow>
            observed s = [c0..<c0 + length (observed s)]
          \<and> (consumer s = C_Idle \<or> consumer s = C_Pop \<longrightarrow>
               observed s @ ready s = [c0..<c0 + length (observed s @ ready s)])
          \<and> (\<forall>b. consumer s = C_Idle \<and> prefetch_current s = Some b \<longrightarrow>
               observed s \<noteq> [] \<and> payload (prefetch s) b = last (observed s)
               \<and> top_cpu_data (top_vec s ! 0) = DataOf b))
       \<and> (0 < N \<and> top_blobs \<noteq> [] \<and> (use_gpu env \<longrightarrow> (\<forall>x. cuda_ok env x)) \<longrightarrow>
            (\<exists>sched' s'. run env sched' s0 = Some s' \<and> length (observed s') = M))"
proof -
  have reach: "observed s = [c0..<c0 + length (observed s)]
          \<and> (consumer s = C_Idle \<or> consumer s = C_Pop \<longrightarrow>
               observed s @ ready s = [c0..<c0 + length (observed s @ ready s)])
          \<and> (\<forall>b. consumer s = C_Idle \<and> prefetch_current s = Some b \<longrightarrow>
               observed s \<noteq> [] \<and> payload (prefetch s) b = last (observed s)
               \<and> top_cpu_data (top_vec s ! 0) = DataOf b)"
    if r: "run env sched s0 = Some s"
  proof -
    from r assms(2) have r': "run env sched (BasePrefetchingDataLayer env N indeterminate top_blobs x) = Some s"
      by simp
    from fifo_run [OF assms(1) r'] assms(2,3) have "fifo env c0 s" by simp
    moreover from current_view_run [OF r'] have "current_view s" .
    ultimately show ?thesis
      by (simp add: fifo_def current_view_def)
  qed
  have live: "\<exists>sched' s'. run env sched' s0 = Some s' \<and> length (observed s') = M"
    if a: "0 < N \<and> top_blobs \<noteq> [] \<and> (use_gpu env \<longrightarrow> (\<forall>x. cuda_ok env x))"
  proof -
    from a assms(1) have rel: "reliable env" by (simp add: seq_fill_reliable)
    from a start_runs [of N top_blobs env indeterminate x] assms(2) obtain s1 where
      s1: "run env [Consumer, Worker] s0 = Some s1" "between_rounds s1" "observed s1 = []"
      by blast
    from rounds_run [OF s1(2) rel, of M] obtain s2 where
      s2: "run env (concat (replicate M next_round)) s1 = Some s2"
        "length (observed s2) = length (observed s1) + M"
      by blast
    from s1(1) s2(1) have "run env ([Consumer, Worker] @ concat (replicate M next_round)) s0 = Some s2"
      by (simp only: run_append option.case)
    moreover from s2(2) s1(3) have "length (observed s2) = M" by simp
    ultimately show ?thesis by blast
  qed
  from reach live show ?thesis by blast
qed

theorem consumer_observes_sequence_witness:
  "load_batch (sequence_env CPU) = seq_fill
 \<and> outside (LayerSetUp (sequence_env CPU) (BasePrefetchingDataLayer (sequence_env CPU) 2 False one_top 0)) = 0
 \<and> map_option (\<lambda>s. (observed s, consumer s, prefetch_current s, top_vec s, payload (prefetch s) 0))
     (run (sequence_env CPU) ([Consumer, Worker] @ next_round @ next_round @ next_round)
        (BasePrefetchingDataLayer (sequence_env CPU) 2 False one_top 0))
   = Some ([0, 1, 2], C_Idle, Some 0, [\<lparr>top_shape = [], top_cpu_data = DataOf 0\<rparr>], 2)"
proof -
  have l: "load_batch (sequence_env CPU) = seq_fill" by (simp add: sequence_env_def)
  obtain s where r: "run (sequence_env CPU) ([Consumer, Worker] @ next_round @ next_round @ next_round)
        (BasePrefetchingDataLayer (sequence_env CPU) 2 False one_top 0) = Some s"
    and n: "length (observed s) = 3" "consumer s = C_Idle" "prefetch_current s = Some 0"
      "top_vec s = [\<lparr>top_shape = [], top_cpu_data = DataOf 0\<rparr>]"
    by (simp add: pipeline_eval)
  have c: "outside (LayerSetUp (sequence_env CPU)
      (BasePrefetchingDataLayer (sequence_env CPU) 2 False one_top 0)) = 0"
    by (simp add: pipeline_eval)
  from consumer_observes_sequence [OF l refl refl,
      of "[Consumer, Worker] @ next_round @ next_round @ next_round" 2 False one_top 0 s] r n c
  have "observed s = [0..<3]" "payload (prefetch s) 0 = last (observed s)" by simp_all
  then have "observed s = [0, 1, 2]" "payload (prefetch s) 0 = 2" by (simp_all add: upt_rec)
  with l r n c show ?thesis by simp
qed

subsection \<open>The claim about interruption and exceptions\<close>

lemma aftermath_step:
  assumes "aftermath t b published s" and "sys_step env a s = Some s'"
  shows "aftermath t b published s'"
proof -
  from assms(1) have bs: "before_setup s" and w: "worker_after t (worker s)"
    and b: "b \<notin> set (places s)" and p: "suffix (prefetch_full s) published"
    by (simp_all add: aftermath_def)
  from bs assms(2) have bs': "before_setup s'" by (rule before_setup_step)
  from assms(2) have "worker_after t (worker s') \<and> b \<notin> set (places s')
      \<and> suffix (prefetch_full s') published"
  proof (cases rule: sys_step_cases)
    case by_worker
    from places_worker [OF by_worker] have "mset (places s') \<subseteq># mset (places s)" by simp
    from set_mset_mono [OF this] b have "b \<notin> set (places s')" by auto
    moreover have "worker_after t (worker s') \<and> suffix (prefetch_full s') published"
    proof (cases t)
      case thread_interrupted
      with w have "worker s = W_LoopExit \<or> worker s = W_Returned \<or> worker s = W_Aborted CudaCheckFailed"
        by (simp add: worker_after_def)
      with by_worker p thread_interrupted show ?thesis
        by (cases rule: InternalThreadEntry_cases) (simp_all add: worker_after_def)
    next
      case (other_exception e)
      with w have "worker s = W_Aborted (Uncaught e)" by (simp add: worker_after_def)
      with by_worker show ?thesis
        by (cases rule: InternalThreadEntry_cases) simp_all
    qed
    ultimately show ?thesis by simp
  next
    case by_setup
    with bs have "worker s = W_NotStarted" by (simp add: before_setup_def)
    with w show ?thesis by (cases t) (simp_all add: worker_after_def)
  next
    case by_forward
    from places_Forward_cpu [OF by_forward(2)] have "mset (places s') = mset (places s)" by simp
    from mset_eq_setD [OF this] b have "b \<notin> set (places s')" by simp
    moreover from Forward_cpu_frame [OF by_forward(2)] p
    have "suffix (prefetch_full s') published" by (blast intro: suffix_order.trans)
    moreover from Forward_cpu_frame [OF by_forward(2)] w have "worker_after t (worker s')" by simp
    ultimately show ?thesis by simp
  next
    case by_stop
    with w b p show ?thesis by (simp add: places_stop)
  qed
  with bs' show ?thesis by (simp add: aftermath_def)
qed

lemma aftermath_run:
  assumes "run env sched s = Some s'" and "aftermath t b published s"
  shows "aftermath t b published s'"
  using assms by (rule run_invariant) (rule aftermath_step)

text \<open>
  Claim C5. In every state the layer reaches: an interruption of the blocked pop takes the
  prefetch thread behind the loop, as does \<^verbatim>\<open>thread_interrupted\<close> thrown by \<^verbatim>\<open>load_batch\<close>, and
  the thread then returns (unless destroying the stream fails); any other exception thrown
  by \<^verbatim>\<open>load_batch\<close> leaves the function uncaught. In both cases the batch that was being
  filled is never in the full queue afterwards, nor in the free queue, nor current at a
  return of \<^verbatim>\<open>Forward_cpu\<close>, and nothing is pushed to the full queue any more.
\<close>

theorem interruption_exits_exception_aborts:
  assumes "run env sched0 (BasePrefetchingDataLayer env N indeterminate top_blobs x) = Some s"
  shows "(worker s = W_Pop \<and> prefetch_free s = [] \<and> interruption_requested s \<longrightarrow>
            InternalThreadEntry env s = Some (s\<lparr>worker := W_LoopExit\<rparr>))
       \<and> (\<forall>b t batch' x'.
            worker s = W_Filling b
            \<and> load_batch env (outside s) (prefetch s ! b) = Thrown t batch' x' \<longrightarrow>
              InternalThreadEntry env s =
                Some (s\<lparr>prefetch := (prefetch s)[b := batch'], outside := x',
                        worker := (case t of thread_interrupted \<Rightarrow> W_LoopExit
                                   | other_exception e \<Rightarrow> W_Aborted (Uncaught e))\<rparr>)
            \<and> (\<forall>sched s'. run env (Worker # sched) s = Some s' \<longrightarrow>
                  b \<notin> set (prefetch_full s') \<and> b \<notin> set (prefetch_free s')
                \<and> (consumer s' \<noteq> C_Pop \<longrightarrow> prefetch_current s' \<noteq> Some b)
                \<and> suffix (prefetch_full s') (prefetch_full s)
                \<and> (case t of
                      thread_interrupted \<Rightarrow>
                        worker s' = W_LoopExit \<or> worker s' = W_Returned
                        \<or> worker s' = W_Aborted CudaCheckFailed
                    | other_exception e \<Rightarrow> worker s' = W_Aborted (Uncaught e))))"
proof (intro conjI allI impI)
  assume "worker s = W_Pop \<and> prefetch_free s = [] \<and> interruption_requested s"
  then show "InternalThreadEntry env s = Some (s\<lparr>worker := W_LoopExit\<rparr>)"
    by (simp add: InternalThreadEntry_def queue_pop_def)
next
  fix b t batch' x'
  assume a: "worker s = W_Filling b
      \<and> load_batch env (outside s) (prefetch s ! b) = Thrown t batch' x'"
  then show "InternalThreadEntry env s =
                Some (s\<lparr>prefetch := (prefetch s)[b := batch'], outside := x',
                        worker := (case t of thread_interrupted \<Rightarrow> W_LoopExit
                                   | other_exception e \<Rightarrow> W_Aborted (Uncaught e))\<rparr>)"
    by (cases t) (simp_all add: InternalThreadEntry_def)
next
  fix b t batch' x' sched s'
  assume a: "worker s = W_Filling b
      \<and> load_batch env (outside s) (prefetch s ! b) = Thrown t batch' x'"
    and r: "run env (Worker # sched) s = Some s'"
  define s1 where "s1 = s\<lparr>prefetch := (prefetch s)[b := batch'], outside := x',
                          worker := thrown_to t\<rparr>"
  from a have 1: "InternalThreadEntry env s = Some s1"
    by (cases t) (simp_all add: InternalThreadEntry_def s1_def thrown_to_def)
  with r have r1: "run env sched s1 = Some s'" by (simp add: sys_step_def)
  from assms have o: "owned env N s" by (rule owned_run)
  from a have hw: "held_by_worker s = [b]" by (simp add: held_by_worker_def)
  from owned_distinct(1) [OF o] hw have nb: "b \<notin> set (prefetch_free s)"
      "b \<notin> set (prefetch_full s)" "b \<notin> set (held_by_consumer s)"
    by (auto simp: places_def)
  have hw1: "held_by_worker s1 = []"
    by (cases t) (simp_all add: s1_def held_by_worker_def thrown_to_def)
  have "places s1 = prefetch_free s @ prefetch_full s @ held_by_consumer s"
    using hw1 by (simp add: places_def) (simp add: s1_def held_by_consumer_def)
  with nb have "b \<notin> set (places s1)" by simp
  moreover from o 1 have "before_setup s1"
    using before_setup_step [of s env Worker s1] by (simp add: owned_def sys_step_def)
  moreover have "worker_after t (worker s1)"
    by (cases t) (simp_all add: s1_def worker_after_def thrown_to_def)
  moreover have "suffix (prefetch_full s1) (prefetch_full s)" by (simp add: s1_def)
  ultimately have "aftermath t b (prefetch_full s) s1" by (simp add: aftermath_def)
  with r1 have am: "aftermath t b (prefetch_full s) s'" by (rule aftermath_run)
  then have np: "b \<notin> set (places s')" by (simp add: aftermath_def)
  from np show "b \<notin> set (prefetch_full s')" by (simp add: places_def)
  from np show "b \<notin> set (prefetch_free s')" by (simp add: places_def)
  from am show "suffix (prefetch_full s') (prefetch_full s)" by (simp add: aftermath_def)
  from am show "case t of
        thread_interrupted \<Rightarrow>
          worker s' = W_LoopExit \<or> worker s' = W_Returned \<or> worker s' = W_Aborted CudaCheckFailed
      | other_exception e \<Rightarrow> worker s' = W_Aborted (Uncaught e)"
    by (simp add: aftermath_def worker_after_def)
  show "prefetch_current s' \<noteq> Some b" if "consumer s' \<noteq> C_Pop"
    using np that by (auto simp: places_def held_by_consumer_def)
qed

theorem interruption_exits_exception_aborts_witness:
  "map_option (\<lambda>s. (worker s, prefetch_free s, prefetch_full s, interruption_requested s))
     (run (sequence_env CPU) [Consumer, Worker, Worker, Worker, Worker, Worker, Worker, Stop]
        (BasePrefetchingDataLayer (sequence_env CPU) 1 False one_top 0))
     = Some (W_Pop, [], [0], True)
 \<and> map_option (\<lambda>s. (worker s, prefetch_free s, prefetch_full s))
     (run (sequence_env CPU) [Consumer, Worker, Worker, Worker, Worker, Worker, Worker, Stop, Worker]
        (BasePrefetchingDataLayer (sequence_env CPU) 1 False one_top 0))
     = Some (W_LoopExit, [], [0])
 \<and> map_option (\<lambda>s. (worker s, prefetch_full s, load_batch failing_env (outside s) (prefetch s ! 1)))
     (run failing_env [Consumer, Worker, Worker, Worker, Worker, Worker, Worker, Worker]
        (BasePrefetchingDataLayer failing_env 2 False one_top 0))
     = Some (W_Filling 1, [0], Thrown (other_exception ''corrupt record'') empty_Batch 1)
 \<and> map_option (\<lambda>s. (worker s, prefetch_free s, prefetch_full s, prefetch_current s, observed s))
     (run failing_env
        ([Consumer, Worker, Worker, Worker, Worker, Worker, Worker, Worker] @ [Worker, Consumer, Consumer])
        (BasePrefetchingDataLayer failing_env 2 False one_top 0))
     = Some (W_Aborted (Uncaught ''corrupt record''), [], [], Some 0, [0])"
proof -
  let ?e = "sequence_env CPU"
  let ?s0 = "BasePrefetchingDataLayer ?e 1 False one_top 0"
  obtain s where r: "run ?e [Consumer, Worker, Worker, Worker, Worker, Worker, Worker, Stop] ?s0 = Some s"
    and f: "worker s = W_Pop" "prefetch_free s = []" "prefetch_full s = [0]" "interruption_requested s"
    by (simp add: pipeline_eval)
  from interruption_exits_exception_aborts [OF r] f
  have step: "InternalThreadEntry ?e s = Some (s\<lparr>worker := W_LoopExit\<rparr>)" by simp
  from r have "run ?e ([Consumer, Worker, Worker, Worker, Worker, Worker, Worker, Stop] @ [Worker]) ?s0
      = run ?e [Worker] s"
    by (simp only: run_append option.case)
  with step have r2: "run ?e [Consumer, Worker, Worker, Worker, Worker, Worker, Worker, Stop, Worker] ?s0
      = Some (s\<lparr>worker := W_LoopExit\<rparr>)"
    by (simp add: sys_step_def)
  let ?t0 = "BasePrefetchingDataLayer failing_env 2 False one_top 0"
  obtain u where q: "run failing_env [Consumer, Worker, Worker, Worker, Worker, Worker, Worker, Worker]
      ?t0 = Some u"
    and g: "worker u = W_Filling 1" "prefetch_full u = [0]"
      "load_batch failing_env (outside u) (prefetch u ! 1)
         = Thrown (other_exception ''corrupt record'') empty_Batch 1"
    by (simp add: failing_env_def pipeline_eval)
  obtain u' where q2: "run failing_env
      ([Consumer, Worker, Worker, Worker, Worker, Worker, Worker, Worker] @ [Worker, Consumer, Consumer])
      ?t0 = Some u'"
    and g': "prefetch_free u' = []" "prefetch_current u' = Some 0" "observed u' = [0]"
      "prefetch_full u' = []"
    by (simp add: failing_env_def pipeline_eval)
  from q q2 have q': "run failing_env [Worker, Consumer, Consumer] u = Some u'"
    by (simp only: run_append option.case)
  from interruption_exits_exception_aborts [OF q] g(1,3) q'
  have h: "worker u' = W_Aborted (Uncaught ''corrupt record'')"
    by (auto simp del: run.simps)
  show ?thesis
    unfolding r r2 q q2 using f g g' h by simp
qed

subsection \<open>The claim about the device transfer\<close>

lemma device_transfer_consistent:
  "device_consistent labels (cudaStreamSynchronize (gpu_pushes labels batch))"
  by (simp add: device_consistent_def cudaStreamSynchronize_def gpu_pushes_def
      async_gpu_push_def stream_synchronized_def Let_def)

lemma published_consistent_update:
  assumes "published_consistent s" and "b \<notin> set (prefetch_full s)"
  shows "published_consistent (s\<lparr>prefetch := (prefetch s)[b := batch']\<rparr>)"
proof -
  have "device_consistent (output_labels s) ((prefetch s)[b := batch'] ! b')"
    if "b' \<in> set (prefetch_full s)" for b'
  proof -
    from that assms(2) have "b' \<noteq> b" by auto
    with that assms(1) show ?thesis by (simp add: published_consistent_def)
  qed
  then show ?thesis by (simp add: published_consistent_def)
qed

lemma published_consistent_worker:
  assumes "published_consistent s" and "owned env N s" and "use_gpu env"
    and "InternalThreadEntry env s = Some s'"
  shows "published_consistent s'"
  using assms(4)
proof (cases rule: InternalThreadEntry_cases)
  case (loaded b batch' x)
  from assms(2) loaded(1) have "b \<notin> set (prefetch_full s)" by (auto dest: owned_worker_holds)
  from published_consistent_update [OF assms(1) this, of batch'] loaded(3)
  show ?thesis by (simp add: published_consistent_def)
next
  case (fill_interrupted b batch' x)
  from assms(2) fill_interrupted(1) have "b \<notin> set (prefetch_full s)" by (auto dest: owned_worker_holds)
  from published_consistent_update [OF assms(1) this, of batch'] fill_interrupted(3)
  show ?thesis by (simp add: published_consistent_def)
next
  case (fill_threw b e batch' x)
  from assms(2) fill_threw(1) have "b \<notin> set (prefetch_full s)" by (auto dest: owned_worker_holds)
  from published_consistent_update [OF assms(1) this, of batch'] fill_threw(3)
  show ?thesis by (simp add: published_consistent_def)
next
  case (publish b)
  with assms(3) show ?thesis by simp
next
  case (publish_gpu b)
  from assms(2) publish_gpu(1) have b: "b \<notin> set (prefetch_full s)" "b < length (prefetch s)"
    by (auto dest: owned_worker_holds)
  let ?new = "cudaStreamSynchronize (gpu_pushes (output_labels s) (prefetch s ! b))"
  from published_consistent_update [OF assms(1) b(1), of ?new]
  have old: "\<forall>b' \<in> set (prefetch_full s).
      device_consistent (output_labels s) ((prefetch s)[b := ?new] ! b')"
    by (simp add: published_consistent_def)
  from b(2) have "device_consistent (output_labels s) ((prefetch s)[b := ?new] ! b)"
    by (simp add: device_transfer_consistent)
  with old publish_gpu(4) show ?thesis
    by (simp add: published_consistent_def)
next
  case (sync_failed b)
  from assms(2) sync_failed(1) have "b \<notin> set (prefetch_full s)" by (auto dest: owned_worker_holds)
  from published_consistent_update [OF assms(1) this, of "gpu_pushes (output_labels s) (prefetch s ! b)"]
    sync_failed(4)
  show ?thesis by (simp add: published_consistent_def)
qed (use assms(1) in \<open>simp_all add: published_consistent_def\<close>)

lemma published_consistent_step:
  assumes "published_consistent s \<and> owned env N s" and "use_gpu env"
    and "sys_step env a s = Some s'"
  shows "published_consistent s' \<and> owned env N s'"
proof -
  from assms(1) have p: "published_consistent s" and o: "owned env N s" and b: "before_setup s"
    by (simp_all add: owned_def)
  from assms(3) have "published_consistent s'"
  proof (cases rule: sys_step_cases)
    case by_worker
    with p o assms(2) show ?thesis by (rule published_consistent_worker)
  next
    case by_setup
    with b show ?thesis by (simp add: published_consistent_def before_setup_def)
  next
    case by_forward
    from by_forward(2) show ?thesis
      by (cases rule: Forward_cpu_cases) (use p in \<open>auto simp: published_consistent_def\<close>)
  next
    case by_stop
    with p show ?thesis by (simp add: published_consistent_def)
  qed
  moreover from o assms(3) have "owned env N s'" by (rule owned_step)
  ultimately show ?thesis ..
qed

text \<open>
  Claim C6. In GPU mode every buffer in the full queue, in every state the layer reaches, has
  a complete device copy of its payload that equals the host contents, and of its label
  when labels are output: the push to the full queue comes after the stream has been
  synchronized, and a buffer in the full queue is not written.
\<close>

theorem published_after_synchronize:
  assumes "use_gpu env"
    and "run env sched (BasePrefetchingDataLayer env N indeterminate top_blobs x) = Some s"
    and "b \<in> set (prefetch_full s)"
  shows "gpu_data (data (prefetch s ! b)) = OnDevice (cpu_data (data (prefetch s ! b)))
       \<and> (output_labels s \<longrightarrow>
            gpu_data (label (prefetch s ! b)) = OnDevice (cpu_data (label (prefetch s ! b))))"
proof -
  let ?s0 = "BasePrefetchingDataLayer env N indeterminate top_blobs x"
  have "published_consistent ?s0 \<and> owned env N ?s0"
    by (simp add: owned_constructor) (simp add: published_consistent_def BasePrefetchingDataLayer_def)
  with assms(2) have "published_consistent s \<and> owned env N s"
    by (rule run_invariant) (rule published_consistent_step [OF _ assms(1)])
  with assms(3) show ?thesis
    by (simp add: published_consistent_def device_consistent_def)
qed

theorem published_after_synchronize_witness:
  "use_gpu gpu_env
 \<and> map_option (\<lambda>s. (prefetch_full s, output_labels s, data (prefetch s ! 0), label (prefetch s ! 0)))
     (run gpu_env [Consumer, Worker, Worker, Worker, Worker, Worker]
        (BasePrefetchingDataLayer gpu_env 2 False two_tops 0))
   = Some ([0], True, \<lparr>shape = [1], cpu_data = 0, gpu_data = OnDevice 0\<rparr>,
           \<lparr>shape = [1], cpu_data = 10, gpu_data = OnDevice 10\<rparr>)"
proof -
  have g: "use_gpu gpu_env" by (simp add: gpu_env_def pipeline_eval)
  obtain s where r: "run gpu_env [Consumer, Worker, Worker, Worker, Worker, Worker]
        (BasePrefetchingDataLayer gpu_env 2 False two_tops 0) = Some s"
    and f: "prefetch_full s = [0]" "output_labels s = True" "shape (data (prefetch s ! 0)) = [1]"
      "cpu_data (data (prefetch s ! 0)) = 0" "shape (label (prefetch s ! 0)) = [1]"
      "cpu_data (label (prefetch s ! 0)) = 10"
    by (simp add: gpu_env_def two_tops_def pipeline_eval)
  have b: "0 \<in> set (prefetch_full s)" using f(1) by simp
  from published_after_synchronize [OF g r b] f
  have "gpu_data (data (prefetch s ! 0)) = OnDevice 0" "gpu_data (label (prefetch s ! 0)) = OnDevice 10"
    by simp_all
  with f have "data (prefetch s ! 0) = \<lparr>shape = [1], cpu_data = 0, gpu_data = OnDevice 0\<rparr>"
    "label (prefetch s ! 0) = \<lparr>shape = [1], cpu_data = 10, gpu_data = OnDevice 10\<rparr>"
    by (cases "data (prefetch s ! 0)"; cases "label (prefetch s ! 0)"; simp)+
  with g r f show ?thesis by simp
qed

subsection \<open>The claim about the label flag\<close>

lemma labels_flag_step:
  assumes "labels_flag n s" and "sys_step env a s = Some s'"
  shows "labels_flag n s'"
  using assms(2)
proof (cases rule: sys_step_cases)
  case by_worker
  from worker_frame [OF this] assms(1) show ?thesis by (simp add: labels_flag_def)
next
  case by_setup
  with assms(1) show ?thesis by (simp add: labels_flag_def)
next
  case by_forward
  from by_forward(2) show ?thesis
    by (cases rule: Forward_cpu_cases)
       (use assms(1) in \<open>auto simp: labels_flag_def dest: expose_length\<close>)
next
  case by_stop
  with assms(1) show ?thesis by (simp add: labels_flag_def)
qed

lemma defined_tops_step:
  assumes "defined_tops n s" and "0 < n" and "sys_step env a s = Some s'"
  shows "defined_tops n s'"
proof -
  from assms(1) have lf: "labels_flag n s" and c: "consumer s \<noteq> C_Undefined"
    by (simp_all add: defined_tops_def)
  from lf assms(3) have lf': "labels_flag n s'" by (rule labels_flag_step)
  from assms(3) have "consumer s' \<noteq> C_Undefined"
  proof (cases rule: sys_step_cases)
    case by_worker
    from worker_frame [OF this] c show ?thesis by simp
  next
    case by_setup
    then show ?thesis by simp
  next
    case by_forward
    from by_forward(2) show ?thesis
    proof (cases rule: Forward_cpu_cases)
      case (take_undefined b rest)
      from lf take_undefined(1) assms(2) have "top_vec s \<noteq> []"
        "output_labels s \<longrightarrow> 2 \<le> length (top_vec s)"
        by (auto simp: labels_flag_def)
      from expose_Some [OF this, of "prefetch s" b] take_undefined(3) show ?thesis by simp
    qed simp_all
  next
    case by_stop
    with c show ?thesis by simp
  qed
  with lf' show ?thesis by (simp add: defined_tops_def)
qed

text \<open>
  Claim C9. \<^verbatim>\<open>LayerSetUp\<close> sets \<^verbatim>\<open>output_labels_\<close> to false exactly when \<^verbatim>\<open>top\<close> has one
  blob, and the flag keeps this value. A \<^verbatim>\<open>Forward_cpu\<close> that returns makes \<^verbatim>\<open>top[0]\<close> refer to
  the payload of the batch it took, with its shape; when the flag is true it makes \<^verbatim>\<open>top[1]\<close>
  refer to the label and leaves the blobs from index 2 on as they were; when the flag is
  false it leaves every blob from index 1 on as it was. With at least one top blob no
  access falls outside the vector.
\<close>

theorem output_labels_decides_top1:
  assumes "run env sched (BasePrefetchingDataLayer env N indeterminate top_blobs x) = Some s"
  shows "output_labels (LayerSetUp env s0) = (length (top_vec s0) \<noteq> 1)
       \<and> (consumer s \<noteq> C_NotSetUp \<longrightarrow> output_labels s = (length top_blobs \<noteq> 1))
       \<and> (top_blobs \<noteq> [] \<longrightarrow> consumer s \<noteq> C_Undefined)
       \<and> (\<forall>s'. Forward_cpu s = Some s' \<and> consumer s = C_Pop \<and> consumer s' = C_Idle \<longrightarrow>
            (\<exists>b. prefetch_current s' = Some b
               \<and> length (top_vec s') = length top_blobs
               \<and> top_vec s' ! 0 = \<lparr>top_shape = shape (data (prefetch s ! b)), top_cpu_data = DataOf b\<rparr>
               \<and> (output_labels s \<longrightarrow>
                    top_vec s' ! 1 = \<lparr>top_shape = shape (label (prefetch s ! b)),
                                       top_cpu_data = LabelOf b\<rparr>
                    \<and> (\<forall>i\<ge>2. top_vec s' ! i = top_vec s ! i))
               \<and> (\<not> output_labels s \<longrightarrow> (\<forall>i\<ge>1. top_vec s' ! i = top_vec s ! i))))"
proof -
  let ?s0 = "BasePrefetchingDataLayer env N indeterminate top_blobs x"
  have init: "labels_flag (length top_blobs) ?s0"
    by (simp add: labels_flag_def BasePrefetchingDataLayer_def)
  with assms have lf: "labels_flag (length top_blobs) s"
    by (rule run_invariant) (rule labels_flag_step)
  have defd: "consumer s \<noteq> C_Undefined" if "top_blobs \<noteq> []"
  proof -
    from that have pos: "0 < length top_blobs" by simp
    from init have "defined_tops (length top_blobs) ?s0"
      by (simp add: defined_tops_def BasePrefetchingDataLayer_def)
    with assms have "defined_tops (length top_blobs) s"
      by (rule run_invariant) (rule defined_tops_step [OF _ pos])
    then show ?thesis by (simp add: defined_tops_def)
  qed
  have fwd: "\<exists>b. prefetch_current s' = Some b
               \<and> length (top_vec s') = length top_blobs
               \<and> top_vec s' ! 0 = \<lparr>top_shape = shape (data (prefetch s ! b)), top_cpu_data = DataOf b\<rparr>
               \<and> (output_labels s \<longrightarrow>
                    top_vec s' ! 1 = \<lparr>top_shape = shape (label (prefetch s ! b)),
                                       top_cpu_data = LabelOf b\<rparr>
                    \<and> (\<forall>i\<ge>2. top_vec s' ! i = top_vec s ! i))
               \<and> (\<not> output_labels s \<longrightarrow> (\<forall>i\<ge>1. top_vec s' ! i = top_vec s ! i))"
    if "Forward_cpu s = Some s' \<and> consumer s = C_Pop \<and> consumer s' = C_Idle" for s'
  proof -
    from that have f: "Forward_cpu s = Some s'" and c: "consumer s = C_Pop" "consumer s' = C_Idle"
      by simp_all
    from f show ?thesis
    proof (cases rule: Forward_cpu_cases)
      case (take b rest t)
      from expose_tops [OF take(3)] expose_length [OF take(3)] lf take(4)
      show ?thesis by (simp add: labels_flag_def)
    qed (use c in simp_all)
  qed
  from lf fwd defd show ?thesis
    by (simp add: labels_flag_def)
qed

theorem output_labels_decides_top1_witness:
  "map_option (\<lambda>s. (output_labels s, consumer s, top_vec s))
     (run gpu_env [Consumer, Worker, Worker, Worker, Worker, Worker, Consumer]
        (BasePrefetchingDataLayer gpu_env 2 False two_tops 0))
   = Some (True, C_Pop, two_tops)
 \<and> map_option (\<lambda>s. (consumer s, top_vec s))
     (run gpu_env [Consumer, Worker, Worker, Worker, Worker, Worker, Consumer, Consumer]
        (BasePrefetchingDataLayer gpu_env 2 False two_tops 0))
   = Some (C_Idle, [\<lparr>top_shape = [1], top_cpu_data = DataOf 0\<rparr>,
                    \<lparr>top_shape = [1], top_cpu_data = LabelOf 0\<rparr>])"
proof -
  obtain s where r: "run gpu_env [Consumer, Worker, Worker, Worker, Worker, Worker, Consumer]
        (BasePrefetchingDataLayer gpu_env 2 False two_tops 0) = Some s"
    and f: "consumer s = C_Pop" "top_vec s = two_tops" "shape (data (prefetch s ! 0)) = [1]"
      "shape (label (prefetch s ! 0)) = [1]"
    by (simp add: gpu_env_def two_tops_def pipeline_eval)
  obtain s' where r8: "run gpu_env
      [Consumer, Worker, Worker, Worker, Worker, Worker, Consumer, Consumer]
      (BasePrefetchingDataLayer gpu_env 2 False two_tops 0) = Some s'"
    and f': "consumer s' = C_Idle" "prefetch_current s' = Some 0" "length (top_vec s') = 2"
    by (simp add: gpu_env_def two_tops_def pipeline_eval)
  from r8 have "run gpu_env
      ([Consumer, Worker, Worker, Worker, Worker, Worker, Consumer] @ [Consumer])
      (BasePrefetchingDataLayer gpu_env 2 False two_tops 0) = Some s'"
    by simp
  with r have "sys_step gpu_env Consumer s = Some s'"
    by (simp only: run_append option.case run.simps split: option.splits)
  with f(1) have r': "Forward_cpu s = Some s'" by (simp add: sys_step_def)
  from output_labels_decides_top1 [OF r, of s] f(1) have l: "output_labels s" 
    by (simp add: two_tops_def)
  from output_labels_decides_top1 [OF r, of s] r' f f' l
  have "top_vec s' ! 0 = \<lparr>top_shape = [1], top_cpu_data = DataOf 0\<rparr>"
    "top_vec s' ! 1 = \<lparr>top_shape = [1], top_cpu_data = LabelOf 0\<rparr>"
    by auto
  with f'(3) have t: "top_vec s' = [\<lparr>top_shape = [1], top_cpu_data = DataOf 0\<rparr>,
                    \<lparr>top_shape = [1], top_cpu_data = LabelOf 0\<rparr>]"
    by (cases "top_vec s'"; cases "tl (top_vec s')") auto
  with r r8 f f' l show ?thesis by simp
qed

end
